theory Spec2Isabelle
  imports Main "HOL-Library.Word"
begin

section \<open>Data model of main.go\<close>

text \<open>
  Go's \<open>int\<close> is taken at its 64-bit width: a \<open>64 word\<close> read with \<open>sint\<close>, so that
  \<open>taskIDCounter++\<close> wraps as the machine does. A \<open>float64\<close> is carried as its IEEE-754 bit
  pattern (the handlers only store and copy it, the zero value is \<open>+0.0\<close>, all bits clear).
  A \<open>time.Time\<close> is the number of nanoseconds since the zero instant of the type, so the
  zero value is \<open>0\<close>; \<open>time.Now()\<close> is an argument of the handler that reads the clock.
\<close>

type_synonym go_int = "64 word"
type_synonym float64 = "64 word"
type_synonym time = int

record Task =
  ID :: go_int
  Expression :: string
  Status :: string
  Result :: float64
  StartTime :: time

datatype TaskRequest = TaskRequest (reqExpression: string)

datatype TaskResponse = TaskResponse (respID: go_int)

record Operation =
  Operator :: string
  Duration :: go_int

text \<open>
  The package-level variables. The mutex is not part of the record: every handler that
  touches \<open>tasks\<close> or \<open>taskIDCounter\<close> locks it before its first access and unlocks it by
  \<open>defer\<close>, so a handler body is one step from \<open>globals\<close> to \<open>globals\<close>.
\<close>

record globals =
  tasks :: "Task list"
  operations :: "Operation list"
  taskIDCounter :: go_int

definition init :: globals where
  "init = \<lparr>tasks = [],
           operations = [\<lparr>Operator = ''+'', Duration = 2\<rparr>, \<lparr>Operator = ''-'', Duration = 2\<rparr>,
                         \<lparr>Operator = ''*'', Duration = 4\<rparr>, \<lparr>Operator = ''/'', Duration = 4\<rparr>],
           taskIDCounter = 0\<rparr>"

text \<open>
  What a handler writes to the \<open>http.ResponseWriter\<close>: a JSON body with status 200, or
  one of the error and empty replies. \<open>Aborted\<close> is a handler that panicked: net/http
  recovers the panic and drops the connection, the deferred unlock having run.
\<close>

datatype response =
    JSON_TaskResponse TaskResponse
  | JSON_Task Task
  | JSON_Operations "Operation list"
  | BadRequest
  | NotFound
  | NoContent
  | Aborted

section \<open>strconv.Itoa\<close>

definition digits :: string where
  "digits = ''0123456789''"

fun formatBits :: "nat \<Rightarrow> string" where
  "formatBits u = (if u < 10 then [digits ! u] else formatBits (u div 10) @ [digits ! (u mod 10)])"

declare formatBits.simps [simp del]

definition Itoa :: "int \<Rightarrow> string" where
  "Itoa i = (if i < 0 then CHR ''-'' # formatBits (nat (- i)) else formatBits (nat i))"

section \<open>The handlers\<close>

text \<open>
  The length of a Go slice is an \<open>int\<close>, so a slice holds at most \<open>MaxInt\<close> elements and
  \<open>append\<close> to a slice of that length panics in the runtime (growslice: len out of range).
\<close>

definition MaxInt :: nat where
  "MaxInt = 2 ^ 63 - 1"

text \<open>
  \<open>addTask\<close>: the argument is the decoded request body, \<open>None\<close> when
  \<open>json.NewDecoder(r.Body).Decode\<close> returned an error.
\<close>

definition addTask :: "TaskRequest option \<Rightarrow> globals \<Rightarrow> response \<times> globals" where
  "addTask body g =
     (case body of
        None \<Rightarrow> (BadRequest, g)
      | Some taskReq \<Rightarrow>
          let g1 = g\<lparr>taskIDCounter := taskIDCounter g + 1\<rparr>;
              newTask = \<lparr>ID = taskIDCounter g1, Expression = reqExpression taskReq,
                         Status = ''pending'', Result = 0, StartTime = 0\<rparr>
          in if MaxInt \<le> length (tasks g1) then (Aborted, g1)
             else let g2 = g1\<lparr>tasks := tasks g1 @ [newTask]\<rparr>
                  in (JSON_TaskResponse (TaskResponse (taskIDCounter g2)), g2))"

text \<open>\<open>getTaskStatus\<close>: the argument is \<open>r.URL.Query().Get("id")\<close>.\<close>

fun getTaskStatus_loop :: "string \<Rightarrow> Task list \<Rightarrow> response" where
  "getTaskStatus_loop taskID [] = NotFound"
| "getTaskStatus_loop taskID (task # rest) =
     (if Itoa (sint (ID task)) = taskID then JSON_Task task
      else getTaskStatus_loop taskID rest)"

definition getTaskStatus :: "string \<Rightarrow> globals \<Rightarrow> response \<times> globals" where
  "getTaskStatus taskID g = (getTaskStatus_loop taskID (tasks g), g)"

definition getOperations :: "globals \<Rightarrow> response \<times> globals" where
  "getOperations g = (JSON_Operations (operations g), g)"

text \<open>
  \<open>getTaskForExecution\<close>: \<open>for i, task := range tasks\<close> walks the slice with \<open>task\<close> a copy
  of element \<open>i\<close>; the two assignments go to \<open>tasks[i]\<close>, the encoder is given \<open>task\<close>.
  The loop takes the whole slice \<open>ts\<close>, the index \<open>i\<close> and the elements still to visit.
\<close>

fun getTaskForExecution_loop :: "time \<Rightarrow> Task list \<Rightarrow> nat \<Rightarrow> Task list \<Rightarrow> response \<times> Task list" where
  "getTaskForExecution_loop now ts i [] = (NotFound, ts)"
| "getTaskForExecution_loop now ts i (task # rest) =
     (if Status task = ''pending'' then
        let ts1 = ts[i := (ts ! i)\<lparr>Status := ''in_progress''\<rparr>];
            ts2 = ts1[i := (ts1 ! i)\<lparr>StartTime := now\<rparr>]
        in (JSON_Task task, ts2)
      else getTaskForExecution_loop now ts (Suc i) rest)"

definition getTaskForExecution :: "time \<Rightarrow> globals \<Rightarrow> response \<times> globals" where
  "getTaskForExecution now g =
     (case getTaskForExecution_loop now (tasks g) 0 (tasks g) of
        (resp, ts) \<Rightarrow> (resp, g\<lparr>tasks := ts\<rparr>))"

text \<open>
  \<open>handleResult\<close>: the argument is the decoded \<open>Task\<close>, \<open>None\<close> when decoding failed.
\<close>

fun handleResult_loop :: "Task \<Rightarrow> Task list \<Rightarrow> nat \<Rightarrow> Task list \<Rightarrow> Task list" where
  "handleResult_loop task ts i [] = ts"
| "handleResult_loop task ts i (t # rest) =
     (if ID t = ID task then ts[i := task]
      else handleResult_loop task ts (Suc i) rest)"

definition handleResult :: "Task option \<Rightarrow> globals \<Rightarrow> response \<times> globals" where
  "handleResult body g =
     (case body of
        None \<Rightarrow> (BadRequest, g)
      | Some task \<Rightarrow> (NoContent, g\<lparr>tasks := handleResult_loop task (tasks g) 0 (tasks g)\<rparr>))"

section \<open>Sequences of requests\<close>

datatype request =
    AddTask "TaskRequest option"
  | GetTaskStatus string
  | GetOperations
  | GetTaskForExecution time
  | HandleResult "Task option"

fun serve :: "request \<Rightarrow> globals \<Rightarrow> response \<times> globals" where
  "serve (AddTask body) g = addTask body g"
| "serve (GetTaskStatus taskID) g = getTaskStatus taskID g"
| "serve GetOperations g = getOperations g"
| "serve (GetTaskForExecution now) g = getTaskForExecution now g"
| "serve (HandleResult body) g = handleResult body g"

fun run :: "request list \<Rightarrow> globals \<Rightarrow> response list \<times> globals" where
  "run [] g = ([], g)"
| "run (rq # rqs) g =
     (case serve rq g of (resp, g') \<Rightarrow>
        (case run rqs g' of (resps, g'') \<Rightarrow> (resp # resps, g'')))"

section \<open>Reading a decimal rendering back\<close>

text \<open>
  The value of a digit string, used to show that \<open>Itoa\<close> renders different integers
  differently.
\<close>

definition digitVal :: "char \<Rightarrow> nat" where
  "digitVal c = of_char c - 48"

definition parseDigits :: "string \<Rightarrow> nat" where
  "parseDigits s = foldl (\<lambda>a c. 10 * a + digitVal c) 0 s"

section \<open>Reachable states and the ids handed out\<close>

text \<open>
  \<open>registry_inv\<close> holds in the initial state and after every request: the task at index
  \<open>k\<close> has id \<open>k + 1\<close>, and the counter is the number of tasks unless the slice is full.
  \<open>isCreate\<close> marks the requests that reach the append of \<open>addTask\<close>; \<open>createdIDs\<close>
  collects the ids that \<open>addTask\<close> returned in a list of responses.
\<close>

definition registry_inv :: "globals \<Rightarrow> bool" where
  "registry_inv g \<longleftrightarrow>
     length (tasks g) \<le> MaxInt \<and>
     (\<forall>k<length (tasks g). sint (ID (tasks g ! k)) = int k + 1) \<and>
     (sint (taskIDCounter g) = int (length (tasks g)) \<or> length (tasks g) = MaxInt)"

fun isCreate :: "request \<Rightarrow> bool" where
  "isCreate (AddTask (Some taskReq)) = True"
| "isCreate rq = False"

fun createdIDs :: "response list \<Rightarrow> int list" where
  "createdIDs [] = []"
| "createdIDs (JSON_TaskResponse r # rs) = sint (respID r) # createdIDs rs"
| "createdIDs (other # rs) = createdIDs rs"

section \<open>The order of the statuses\<close>

text \<open>
  The three statuses in their order, \<open>pending < in_progress < completed\<close>. A report is
  forward in a state when its status is one of the three and not below the status of any
  stored task with its id; \<open>forwardReports\<close> says so of every report of a sequence, each
  in the state it meets. \<open>advanced ts ts'\<close>: the list has not shrunk and no status at an
  index of \<open>ts\<close> has gone down.
\<close>

definition statusRank :: "string \<Rightarrow> nat" where
  "statusRank s = (if s = ''pending'' then 0 else if s = ''in_progress'' then 1 else 2)"

definition validStatus :: "string \<Rightarrow> bool" where
  "validStatus s \<longleftrightarrow> s = ''pending'' \<or> s = ''in_progress'' \<or> s = ''completed''"

fun forwardReport :: "request \<Rightarrow> globals \<Rightarrow> bool" where
  "forwardReport (HandleResult (Some task)) g =
     (validStatus (Status task) \<and>
      (\<forall>t\<in>set (tasks g). ID t = ID task \<longrightarrow> statusRank (Status t) \<le> statusRank (Status task)))"
| "forwardReport rq g = True"

fun forwardReports :: "request list \<Rightarrow> globals \<Rightarrow> bool" where
  "forwardReports [] g = True"
| "forwardReports (rq # rqs) g = (forwardReport rq g \<and> forwardReports rqs (snd (serve rq g)))"

definition advanced :: "Task list \<Rightarrow> Task list \<Rightarrow> bool" where
  "advanced ts ts' \<longleftrightarrow>
     length ts \<le> length ts' \<and>
     (\<forall>k<length ts. statusRank (Status (ts ! k)) \<le> statusRank (Status (ts' ! k)))"

section \<open>Concurrent calls of getTaskForExecution\<close>

text \<open>
  net/http runs every request in a goroutine of its own. A call of \<open>getTaskForExecution\<close>
  is followed statement by statement, with its local variables: \<open>Idle\<close> before
  \<open>tasksMutex.Lock()\<close>; \<open>Loop i n\<close> at the head of the range loop over the \<open>n\<close> elements the
  slice had when the loop began; \<open>Test i n task\<close> with \<open>task\<close> the copy of element \<open>i\<close>,
  before the comparison with \<open>pending\<close>; \<open>SetStatus i task\<close> and \<open>SetStartTime i task\<close>
  before the two assignments to \<open>tasks[i]\<close>; \<open>Encode i task\<close> before \<open>task\<close> is written as
  the response and \<open>ReplyNotFound\<close> before \<open>http.NotFound\<close>, each followed by the return
  that runs the deferred \<open>Unlock\<close>; \<open>Served i task\<close> and \<open>Unserved\<close> afterwards, keeping
  the index and the record the call returned with. \<open>tasksMutex\<close> is \<open>True\<close> while locked:
  \<open>Lock\<close> can only be taken by an \<open>Idle\<close> call when it is \<open>False\<close>, and a call that cannot
  move has no step (\<open>None\<close>). \<open>time.Now()\<close> is the \<open>now\<close> of the step.

  A schedule is a list of pairs (call, clock reading); \<open>exec\<close> runs it one step at a
  time and is \<open>None\<close> when a scheduled call cannot move. \<open>reply\<close> is the response a
  returned call has written.
\<close>

datatype pc =
    Idle
  | Loop nat nat
  | Test nat nat Task
  | SetStatus nat Task
  | SetStartTime nat Task
  | Encode nat Task
  | ReplyNotFound
  | Served nat Task
  | Unserved

record system =
  mem :: globals
  tasksMutex :: bool
  calls :: "pc list"

fun thread_step :: "time \<Rightarrow> pc \<Rightarrow> globals \<Rightarrow> bool \<Rightarrow> (pc \<times> globals \<times> bool) option" where
  "thread_step now Idle g locked =
     (if locked then None else Some (Loop 0 (length (tasks g)), g, True))"
| "thread_step now (Loop i n) g locked =
     Some (if i < n then Test i n (tasks g ! i) else ReplyNotFound, g, locked)"
| "thread_step now (Test i n task) g locked =
     Some (if Status task = ''pending'' then SetStatus i task else Loop (Suc i) n, g, locked)"
| "thread_step now (SetStatus i task) g locked =
     Some (SetStartTime i task,
           g\<lparr>tasks := (tasks g)[i := (tasks g ! i)\<lparr>Status := ''in_progress''\<rparr>]\<rparr>, locked)"
| "thread_step now (SetStartTime i task) g locked =
     Some (Encode i task,
           g\<lparr>tasks := (tasks g)[i := (tasks g ! i)\<lparr>StartTime := now\<rparr>]\<rparr>, locked)"
| "thread_step now (Encode i task) g locked = Some (Served i task, g, False)"
| "thread_step now ReplyNotFound g locked = Some (Unserved, g, False)"
| "thread_step now (Served i task) g locked = None"
| "thread_step now Unserved g locked = None"

definition sys_step :: "nat \<Rightarrow> time \<Rightarrow> system \<Rightarrow> system option" where
  "sys_step k now s =
     (if k < length (calls s) then
        (case thread_step now (calls s ! k) (mem s) (tasksMutex s) of
           None \<Rightarrow> None
         | Some (c, g, locked) \<Rightarrow>
             Some \<lparr>mem = g, tasksMutex = locked, calls = (calls s)[k := c]\<rparr>)
      else None)"

fun exec :: "(nat \<times> time) list \<Rightarrow> system \<Rightarrow> system option" where
  "exec [] s = Some s"
| "exec ((k, now) # sch) s =
     (case sys_step k now s of None \<Rightarrow> None | Some s' \<Rightarrow> exec sch s')"

fun reply :: "pc \<Rightarrow> response option" where
  "reply (Served i task) = Some (JSON_Task task)"
| "reply Unserved = Some NotFound"
| "reply c = None"

text \<open>
  \<open>selected c\<close> is the index of the task a call has selected, from the moment its test
  for \<open>pending\<close> succeeded. For the proofs: a call is \<open>active\<close> between its \<open>Lock\<close> and its
  \<open>Unlock\<close>; \<open>local_ok\<close> relates the local variables of a call to the list of tasks the
  run started from and to the current one; \<open>one_pending ts0 p\<close> says that index \<open>p\<close> holds
  the only pending task of \<open>ts0\<close>; \<open>claim_inv\<close> is the invariant of all runs, and
  \<open>remaining\<close> bounds the steps a call has left.
\<close>

fun selected :: "pc \<Rightarrow> nat option" where
  "selected (SetStatus i task) = Some i"
| "selected (SetStartTime i task) = Some i"
| "selected (Encode i task) = Some i"
| "selected (Served i task) = Some i"
| "selected c = None"

fun active :: "pc \<Rightarrow> bool" where
  "active Idle = False"
| "active (Served i task) = False"
| "active Unserved = False"
| "active c = True"

fun local_ok :: "Task list \<Rightarrow> Task list \<Rightarrow> pc \<Rightarrow> bool" where
  "local_ok ts0 ts Idle = True"
| "local_ok ts0 ts (Loop i n) =
     (n = length ts0 \<and> (\<forall>j<length ts0. j < i \<longrightarrow> Status (ts ! j) \<noteq> ''pending''))"
| "local_ok ts0 ts (Test i n task) =
     (n = length ts0 \<and> i < n \<and> task = ts ! i \<and>
      (\<forall>j<length ts0. j < i \<longrightarrow> Status (ts ! j) \<noteq> ''pending''))"
| "local_ok ts0 ts (SetStatus i task) =
     (i < length ts0 \<and> task = ts0 ! i \<and> Status (ts0 ! i) = ''pending'' \<and> ts ! i = ts0 ! i \<and>
      (\<forall>j<length ts0. j < i \<longrightarrow> Status (ts ! j) \<noteq> ''pending''))"
| "local_ok ts0 ts (SetStartTime i task) =
     (i < length ts0 \<and> task = ts0 ! i \<and> Status (ts0 ! i) = ''pending'' \<and>
      Status (ts ! i) \<noteq> ''pending'' \<and>
      (\<forall>j<length ts0. j < i \<longrightarrow> Status (ts ! j) \<noteq> ''pending''))"
| "local_ok ts0 ts (Encode i task) =
     (i < length ts0 \<and> task = ts0 ! i \<and> Status (ts0 ! i) = ''pending'' \<and>
      Status (ts ! i) \<noteq> ''pending'' \<and>
      (\<forall>j<length ts0. j < i \<longrightarrow> Status (ts ! j) \<noteq> ''pending''))"
| "local_ok ts0 ts (Served i task) =
     (i < length ts0 \<and> task = ts0 ! i \<and> Status (ts0 ! i) = ''pending'' \<and>
      Status (ts ! i) \<noteq> ''pending'' \<and>
      (\<forall>j<length ts0. j < i \<longrightarrow> Status (ts ! j) \<noteq> ''pending''))"
| "local_ok ts0 ts ReplyNotFound = (\<forall>j<length ts0. Status (ts ! j) \<noteq> ''pending'')"
| "local_ok ts0 ts Unserved = (\<forall>j<length ts0. Status (ts ! j) \<noteq> ''pending'')"

definition at_most_one :: "(pc \<Rightarrow> bool) \<Rightarrow> pc list \<Rightarrow> bool" where
  "at_most_one P cs \<longleftrightarrow> (\<forall>k<length cs. \<forall>j<length cs. P (cs ! k) \<and> P (cs ! j) \<longrightarrow> k = j)"

definition some_call :: "(pc \<Rightarrow> bool) \<Rightarrow> pc list \<Rightarrow> bool" where
  "some_call P cs \<longleftrightarrow> (\<exists>k<length cs. P (cs ! k))"

definition one_pending :: "Task list \<Rightarrow> nat \<Rightarrow> bool" where
  "one_pending ts0 p \<longleftrightarrow>
     p < length ts0 \<and> Status (ts0 ! p) = ''pending'' \<and>
     (\<forall>j<length ts0. j \<noteq> p \<longrightarrow> Status (ts0 ! j) \<noteq> ''pending'')"

definition claim_inv :: "Task list \<Rightarrow> system \<Rightarrow> bool" where
  "claim_inv ts0 s \<longleftrightarrow>
     length (tasks (mem s)) = length ts0 \<and>
     (\<forall>j<length ts0. Status (tasks (mem s) ! j) = ''pending'' \<longrightarrow> tasks (mem s) ! j = ts0 ! j) \<and>
     (tasksMutex s \<longleftrightarrow> some_call active (calls s)) \<and>
     at_most_one active (calls s) \<and>
     (\<forall>i. at_most_one (\<lambda>c. selected c = Some i) (calls s)) \<and>
     (\<forall>i<length ts0. Status (ts0 ! i) = ''pending'' \<and> Status (tasks (mem s) ! i) \<noteq> ''pending'' \<longrightarrow>
        some_call (\<lambda>c. selected c = Some i) (calls s)) \<and>
     (\<forall>k<length (calls s). local_ok ts0 (tasks (mem s)) (calls s ! k))"

fun remaining :: "nat \<Rightarrow> pc \<Rightarrow> nat" where
  "remaining L Idle = 2 * L + 6"
| "remaining L (Loop i n) = 2 * (n - i) + 5"
| "remaining L (Test i n task) = 2 * (n - i) + 4"
| "remaining L (SetStatus i task) = 3"
| "remaining L (SetStartTime i task) = 2"
| "remaining L (Encode i task) = 1"
| "remaining L ReplyNotFound = 1"
| "remaining L (Served i task) = 0"
| "remaining L Unserved = 0"

section \<open>Facts about the loops\<close>

lemma drop_eq_Cons_nth:
  "drop i ts = x # xs \<Longrightarrow> i < length ts \<and> ts ! i = x \<and> drop (Suc i) ts = xs"
proof -
  assume h: "drop i ts = x # xs"
  have l: "i < length ts"
  proof (rule ccontr)
    assume "\<not> i < length ts"
    then have "drop i ts = []" by simp
    with h show False by simp
  qed
  have "ts ! i = hd (drop i ts)" using l by (simp add: hd_drop_conv_nth)
  moreover have "drop (Suc i) ts = tl (drop i ts)" by (simp add: drop_Suc tl_drop)
  ultimately show ?thesis using h l by simp
qed

lemma getTaskForExecution_loop_none:
  "\<forall>t\<in>set xs. Status t \<noteq> ''pending'' \<Longrightarrow> getTaskForExecution_loop now ts i xs = (NotFound, ts)"
  by (induction xs arbitrary: i) simp_all

lemma getTaskForExecution_loop_NotFound_iff:
  "(fst (getTaskForExecution_loop now ts i xs) = NotFound) = (\<forall>t\<in>set xs. Status t \<noteq> ''pending'')"
  by (induction xs arbitrary: i) (auto simp: Let_def)

lemma getTaskForExecution_loop_found:
  "drop i ts = xs \<Longrightarrow> k < length xs \<Longrightarrow> Status (xs ! k) = ''pending'' \<Longrightarrow>
   \<forall>j<k. Status (xs ! j) \<noteq> ''pending'' \<Longrightarrow>
   getTaskForExecution_loop now ts i xs =
     (JSON_Task (xs ! k), ts[i + k := (ts ! (i + k))\<lparr>Status := ''in_progress'', StartTime := now\<rparr>])"
proof (induction xs arbitrary: i k)
  case Nil
  then show ?case by simp
next
  case (Cons x xs)
  note dd = drop_eq_Cons_nth [OF Cons.prems(1)]
  from dd have d1: "i < length ts" by (rule conjunct1)
  from dd have d3: "drop (Suc i) ts = xs" by simp
  show ?case
  proof (cases k)
    case 0
    have px: "Status x = ''pending''" using Cons.prems(3) 0 by simp
    have "getTaskForExecution_loop now ts i (x # xs) =
       (JSON_Task x, (ts[i := (ts ! i)\<lparr>Status := ''in_progress''\<rparr>])
          [i := ((ts[i := (ts ! i)\<lparr>Status := ''in_progress''\<rparr>]) ! i)\<lparr>StartTime := now\<rparr>])"
      using px by (simp add: Let_def)
    also have "(ts[i := (ts ! i)\<lparr>Status := ''in_progress''\<rparr>]) ! i = (ts ! i)\<lparr>Status := ''in_progress''\<rparr>"
      using d1 by simp
    finally show ?thesis using 0 by simp
  next
    case (Suc k')
    have nx: "Status x \<noteq> ''pending''" using Cons.prems(4) Suc by (auto dest: spec [of _ 0])
    have "getTaskForExecution_loop now ts (Suc i) xs =
      (JSON_Task (xs ! k'), ts[Suc i + k' := (ts ! (Suc i + k'))\<lparr>Status := ''in_progress'', StartTime := now\<rparr>])"
    proof (rule Cons.IH [OF d3])
      show "k' < length xs" using Cons.prems(2) Suc by simp
      show "Status (xs ! k') = ''pending''" using Cons.prems(3) Suc by simp
      show "\<forall>j<k'. Status (xs ! j) \<noteq> ''pending''" using Cons.prems(4) Suc by auto
    qed
    with nx Suc show ?thesis by simp
  qed
qed

lemma handleResult_loop_none:
  "\<forall>t\<in>set xs. ID t \<noteq> ID task \<Longrightarrow> handleResult_loop task ts i xs = ts"
  by (induction xs arbitrary: i) simp_all

lemma handleResult_loop_found:
  "k < length xs \<Longrightarrow> ID (xs ! k) = ID task \<Longrightarrow> \<forall>j<k. ID (xs ! j) \<noteq> ID task \<Longrightarrow>
   handleResult_loop task ts i xs = ts[i + k := task]"
proof (induction xs arbitrary: i k)
  case Nil
  then show ?case by simp
next
  case (Cons x xs)
  show ?case
  proof (cases k)
    case 0
    with Cons.prems show ?thesis by simp
  next
    case (Suc k')
    have nx: "ID x \<noteq> ID task" using Cons.prems(3) Suc by (auto dest: spec [of _ 0])
    have "handleResult_loop task ts (Suc i) xs = ts[Suc i + k' := task]"
    proof (rule Cons.IH)
      show "k' < length xs" using Cons.prems(1) Suc by simp
      show "ID (xs ! k') = ID task" using Cons.prems(2) Suc by simp
      show "\<forall>j<k'. ID (xs ! j) \<noteq> ID task" using Cons.prems(3) Suc by auto
    qed
    with nx Suc show ?thesis by simp
  qed
qed

section \<open>Facts about sequences of requests\<close>

lemma snd_run_Cons: "snd (run (rq # rqs) g) = snd (run rqs (snd (serve rq g)))"
  by (simp split: prod.splits)

lemma fst_run_Cons:
  "fst (run (rq # rqs) g) = fst (serve rq g) # fst (run rqs (snd (serve rq g)))"
  by (simp split: prod.splits)

lemma serve_operations: "operations (snd (serve rq g)) = operations g"
  by (cases rq)
     (auto simp: addTask_def getTaskStatus_def getOperations_def getTaskForExecution_def
        handleResult_def Let_def split: option.splits prod.splits)

lemma run_operations: "operations (snd (run rqs g)) = operations g"
proof (induction rqs arbitrary: g)
  case Nil
  show ?case by simp
next
  case (Cons rq rqs)
  have "operations (snd (run rqs (snd (serve rq g)))) = operations (snd (serve rq g))"
    by (rule Cons.IH)
  then show ?case by (simp only: snd_run_Cons serve_operations)
qed

lemma fst_getTaskForExecution:
  "fst (getTaskForExecution now g) = fst (getTaskForExecution_loop now (tasks g) 0 (tasks g))"
  by (simp add: getTaskForExecution_def split: prod.splits)

lemma snd_getTaskForExecution:
  "snd (getTaskForExecution now g) = g\<lparr>tasks := snd (getTaskForExecution_loop now (tasks g) 0 (tasks g))\<rparr>"
  by (simp add: getTaskForExecution_def split: prod.splits)

section \<open>Facts about Itoa\<close>

lemma below_ten: "(u::nat) < 10 \<Longrightarrow> u \<in> {0, 1, 2, 3, 4, 5, 6, 7, 8, 9}"
  by auto

lemma digits_nth:
  "digits ! 0 = CHR ''0''" "digits ! 1 = CHR ''1''" "digits ! 2 = CHR ''2''" "digits ! 3 = CHR ''3''"
  "digits ! 4 = CHR ''4''" "digits ! 5 = CHR ''5''" "digits ! 6 = CHR ''6''" "digits ! 7 = CHR ''7''"
  "digits ! 8 = CHR ''8''" "digits ! 9 = CHR ''9''" "digits ! Suc 0 = CHR ''1''"
  by (simp_all add: digits_def)

lemma digitVal_digits: "u < 10 \<Longrightarrow> digitVal (digits ! u) = u"
  using below_ten [of u] by (auto simp: digits_nth digitVal_def)

lemma digits_in: "u < 10 \<Longrightarrow> digits ! u \<in> set digits"
  by (rule nth_mem) (simp add: digits_def)

lemma parseDigits_snoc: "parseDigits (s @ [c]) = 10 * parseDigits s + digitVal c"
  by (simp add: parseDigits_def)

lemma parseDigits_formatBits: "parseDigits (formatBits u) = u"
proof (induction u rule: formatBits.induct)
  case (1 u)
  show ?case
  proof (cases "u < 10")
    case True
    then show ?thesis
      by (simp add: formatBits.simps [of u] parseDigits_def digitVal_digits)
  next
    case False
    then have "parseDigits (formatBits (u div 10)) = u div 10" by (rule 1)
    then show ?thesis using False
      by (simp add: formatBits.simps [of u] parseDigits_snoc digitVal_digits)
  qed
qed

lemma formatBits_inj: "formatBits u = formatBits v \<Longrightarrow> u = v"
  by (metis parseDigits_formatBits)

lemma formatBits_not_Nil: "formatBits u \<noteq> []"
  by (simp add: formatBits.simps [of u])

lemma set_formatBits: "set (formatBits u) \<subseteq> set digits"
proof (induction u rule: formatBits.induct)
  case (1 u)
  show ?case
  proof (cases "u < 10")
    case True
    then show ?thesis by (simp add: formatBits.simps [of u] digits_in)
  next
    case False
    then have "set (formatBits (u div 10)) \<subseteq> set digits" by (rule 1)
    then show ?thesis using False by (simp add: formatBits.simps [of u] digits_in)
  qed
qed

lemma hd_formatBits_in: "hd (formatBits u) \<in> set digits"
  using set_formatBits [of u] formatBits_not_Nil [of u] by (meson hd_in_set subsetD)

lemma minus_notin_digits: "CHR ''-'' \<notin> set digits"
  by (simp add: digits_def)

lemma Itoa_inj: "Itoa i = Itoa j \<Longrightarrow> i = j"
proof -
  assume e: "Itoa i = Itoa j"
  have neg: "\<And>a b. a < 0 \<Longrightarrow> \<not> b < 0 \<Longrightarrow> Itoa a \<noteq> Itoa b"
  proof
    fix a b :: int
    assume "a < 0" "\<not> b < 0" "Itoa a = Itoa b"
    then have "CHR ''-'' # formatBits (nat (- a)) = formatBits (nat b)" by (simp add: Itoa_def)
    then have "hd (formatBits (nat b)) = CHR ''-''" by (metis list.sel(1))
    with hd_formatBits_in [of "nat b"] minus_notin_digits show False by simp
  qed
  show ?thesis
  proof (cases "i < 0")
    case True
    show ?thesis
    proof (cases "j < 0")
      case jn: True
      from e True jn have "formatBits (nat (- i)) = formatBits (nat (- j))" by (simp add: Itoa_def)
      then have "nat (- i) = nat (- j)" by (rule formatBits_inj)
      with True jn show ?thesis by simp
    next
      case False
      with neg [OF True False] e show ?thesis by simp
    qed
  next
    case False
    show ?thesis
    proof (cases "j < 0")
      case jn: True
      with neg [OF jn False] e show ?thesis by simp
    next
      case jp: False
      from e False jp have "formatBits (nat i) = formatBits (nat j)" by (simp add: Itoa_def)
      then have "nat i = nat j" by (rule formatBits_inj)
      with False jp show ?thesis by simp
    qed
  qed
qed

lemma hd_formatBits_zero: "hd (formatBits u) = CHR ''0'' \<Longrightarrow> u = 0"
proof (induction u rule: formatBits.induct)
  case (1 u)
  show ?case
  proof (cases "u < 10")
    case True
    with 1(2) have "digits ! u = CHR ''0''" by (simp add: formatBits.simps [of u])
    then have "digitVal (digits ! u) = 0" by (simp add: digitVal_def)
    with True show ?thesis by (simp add: digitVal_digits)
  next
    case False
    with 1(2) have "hd (formatBits (u div 10)) = CHR ''0''"
      by (simp add: formatBits.simps [of u] formatBits_not_Nil)
    with False have "u div 10 = 0" by (rule 1(1))
    with False show ?thesis by simp
  qed
qed

lemma Itoa_not_Nil: "Itoa i \<noteq> []"
  by (simp add: Itoa_def formatBits_not_Nil)

lemma set_Itoa: "set (Itoa i) \<subseteq> insert (CHR ''-'') (set digits)"
  using set_formatBits by (auto simp: Itoa_def)

lemma Itoa_leading_zero: "CHR ''0'' # s = Itoa j \<Longrightarrow> s = []"
proof -
  assume e: "CHR ''0'' # s = Itoa j"
  then have nn: "\<not> j < 0" by (auto simp: Itoa_def)
  with e have f: "formatBits (nat j) = CHR ''0'' # s" by (simp add: Itoa_def)
  then have "hd (formatBits (nat j)) = CHR ''0''" by simp
  then have "nat j = 0" by (rule hd_formatBits_zero)
  with f show ?thesis by (simp add: formatBits.simps [of 0] digits_nth)
qed

lemma getTaskStatus_loop_append:
  "\<forall>t\<in>set xs. Itoa (sint (ID t)) \<noteq> q \<Longrightarrow>
   getTaskStatus_loop q (xs @ ys) = getTaskStatus_loop q ys"
  by (induction xs) simp_all

lemma getTaskStatus_loop_NotFound_iff:
  "(getTaskStatus_loop q ts = NotFound) = (\<forall>t\<in>set ts. Itoa (sint (ID t)) \<noteq> q)"
  by (induction ts) simp_all

lemma Itoa_chars: "c \<notin> set digits \<Longrightarrow> c \<noteq> CHR ''-'' \<Longrightarrow> c \<in> set s \<Longrightarrow> s \<noteq> Itoa j"
  using set_Itoa [of j] by auto

lemma plus_notin_digits: "CHR ''+'' \<notin> set digits"
  by (simp add: digits_def)

lemma space_notin_digits: "CHR '' '' \<notin> set digits"
  by (simp add: digits_def)

lemma zero_prefix_not_Itoa: "CHR ''0'' # Itoa n \<noteq> Itoa j"
  using Itoa_leading_zero [of "Itoa n" j] Itoa_not_Nil [of n] by blast

lemma plus_prefix_not_Itoa: "CHR ''+'' # s \<noteq> Itoa j"
  by (rule Itoa_chars [of "CHR ''+''"]) (simp_all add: plus_notin_digits)

lemma space_prefix_not_Itoa: "CHR '' '' # s \<noteq> Itoa j"
  by (rule Itoa_chars [of "CHR '' ''"]) (simp_all add: space_notin_digits)

lemma space_suffix_not_Itoa: "s @ '' '' \<noteq> Itoa j"
  by (rule Itoa_chars [of "CHR '' ''"]) (simp_all add: space_notin_digits)

section \<open>The shape of a claim and of a report\<close>

lemma sint_succ: "sint (c :: go_int) < 2 ^ 63 - 1 \<Longrightarrow> sint (c + 1) = sint c + 1"
proof -
  assume h: "sint c < 2 ^ 63 - 1"
  have lo: "- (2 ^ 63) \<le> sint c" using sint_ge [of c] by simp
  have "sint (c + 1) = signed_take_bit 63 (sint c + sint (1 :: go_int))"
    by (simp add: sint_word_add)
  also have "sint (1 :: go_int) = 1" by simp
  also have "signed_take_bit 63 (sint c + 1) = sint c + 1"
    by (rule signed_take_bit_int_eq_self) (use h lo in simp_all)
  finally show ?thesis .
qed

lemma getTaskForExecution_loop_shape:
  "drop i ts = xs \<Longrightarrow>
   getTaskForExecution_loop now ts i xs = (NotFound, ts) \<or>
   (\<exists>k<length ts. Status (ts ! k) = ''pending'' \<and>
      getTaskForExecution_loop now ts i xs =
        (JSON_Task (ts ! k), ts[k := (ts ! k)\<lparr>Status := ''in_progress'', StartTime := now\<rparr>]))"
proof (induction xs arbitrary: i)
  case Nil
  show ?case by simp
next
  case (Cons x xs)
  note dd = drop_eq_Cons_nth [OF Cons.prems]
  from dd have d1: "i < length ts" by (rule conjunct1)
  from dd have d2: "ts ! i = x" by simp
  from dd have d3: "drop (Suc i) ts = xs" by simp
  show ?case
  proof (cases "Status x = ''pending''")
    case True
    have "getTaskForExecution_loop now ts i (x # xs) =
       (JSON_Task x, (ts[i := (ts ! i)\<lparr>Status := ''in_progress''\<rparr>])
          [i := ((ts[i := (ts ! i)\<lparr>Status := ''in_progress''\<rparr>]) ! i)\<lparr>StartTime := now\<rparr>])"
      using True by (simp add: Let_def)
    also have "(ts[i := (ts ! i)\<lparr>Status := ''in_progress''\<rparr>]) ! i = (ts ! i)\<lparr>Status := ''in_progress''\<rparr>"
      using d1 by simp
    finally have "getTaskForExecution_loop now ts i (x # xs) =
        (JSON_Task (ts ! i), ts[i := (ts ! i)\<lparr>Status := ''in_progress'', StartTime := now\<rparr>])"
      by (simp add: d2)
    moreover have "Status (ts ! i) = ''pending''" using True by (simp add: d2)
    ultimately show ?thesis using d1 by blast
  next
    case False
    then have "getTaskForExecution_loop now ts i (x # xs) = getTaskForExecution_loop now ts (Suc i) xs"
      by simp
    with Cons.IH [OF d3] show ?thesis by simp
  qed
qed

lemma handleResult_loop_shape:
  "drop i ts = xs \<Longrightarrow>
   handleResult_loop task ts i xs = ts \<or>
   (\<exists>k<length ts. ID (ts ! k) = ID task \<and> handleResult_loop task ts i xs = ts[k := task])"
proof (induction xs arbitrary: i)
  case Nil
  show ?case by simp
next
  case (Cons x xs)
  note dd = drop_eq_Cons_nth [OF Cons.prems]
  from dd have d1: "i < length ts" by (rule conjunct1)
  from dd have d2: "ts ! i = x" by simp
  from dd have d3: "drop (Suc i) ts = xs" by simp
  show ?case
  proof (cases "ID x = ID task")
    case True
    then have "handleResult_loop task ts i (x # xs) = ts[i := task]" by simp
    moreover have "ID (ts ! i) = ID task" using True by (simp add: d2)
    ultimately show ?thesis using d1 by blast
  next
    case False
    then have "handleResult_loop task ts i (x # xs) = handleResult_loop task ts (Suc i) xs"
      by simp
    with Cons.IH [OF d3] show ?thesis by simp
  qed
qed

lemma getTaskForExecution_shape:
  "getTaskForExecution now g = (NotFound, g) \<or>
   (\<exists>k<length (tasks g). Status (tasks g ! k) = ''pending'' \<and>
      getTaskForExecution now g =
        (JSON_Task (tasks g ! k),
         g\<lparr>tasks := (tasks g)[k := (tasks g ! k)\<lparr>Status := ''in_progress'', StartTime := now\<rparr>]\<rparr>))"
proof -
  have "drop 0 (tasks g) = tasks g" by simp
  from getTaskForExecution_loop_shape [OF this, of now]
  show ?thesis
  proof
    assume "getTaskForExecution_loop now (tasks g) 0 (tasks g) = (NotFound, tasks g)"
    then have "getTaskForExecution now g = (NotFound, g)" by (simp add: getTaskForExecution_def)
    then show ?thesis by (rule disjI1)
  next
    assume "\<exists>k<length (tasks g). Status (tasks g ! k) = ''pending'' \<and>
      getTaskForExecution_loop now (tasks g) 0 (tasks g) =
        (JSON_Task (tasks g ! k), (tasks g)[k := (tasks g ! k)\<lparr>Status := ''in_progress'', StartTime := now\<rparr>])"
    then obtain k where k: "k < length (tasks g)" "Status (tasks g ! k) = ''pending''"
      "getTaskForExecution_loop now (tasks g) 0 (tasks g) =
        (JSON_Task (tasks g ! k), (tasks g)[k := (tasks g ! k)\<lparr>Status := ''in_progress'', StartTime := now\<rparr>])"
      by blast
    from k(3) have "getTaskForExecution now g =
        (JSON_Task (tasks g ! k),
         g\<lparr>tasks := (tasks g)[k := (tasks g ! k)\<lparr>Status := ''in_progress'', StartTime := now\<rparr>]\<rparr>)"
      by (simp add: getTaskForExecution_def)
    with k(1) k(2) show ?thesis by blast
  qed
qed

lemma handleResult_shape:
  "handleResult (Some task) g = (NoContent, g) \<or>
   (\<exists>k<length (tasks g). ID (tasks g ! k) = ID task \<and>
      handleResult (Some task) g = (NoContent, g\<lparr>tasks := (tasks g)[k := task]\<rparr>))"
proof -
  have "drop 0 (tasks g) = tasks g" by simp
  from handleResult_loop_shape [OF this, of task]
  show ?thesis
  proof
    assume "handleResult_loop task (tasks g) 0 (tasks g) = tasks g"
    then have "handleResult (Some task) g = (NoContent, g)" by (simp add: handleResult_def)
    then show ?thesis by (rule disjI1)
  next
    assume "\<exists>k<length (tasks g). ID (tasks g ! k) = ID task \<and>
      handleResult_loop task (tasks g) 0 (tasks g) = (tasks g)[k := task]"
    then obtain k where k: "k < length (tasks g)" "ID (tasks g ! k) = ID task"
      "handleResult_loop task (tasks g) 0 (tasks g) = (tasks g)[k := task]"
      by blast
    from k(3) have "handleResult (Some task) g = (NoContent, g\<lparr>tasks := (tasks g)[k := task]\<rparr>)"
      by (simp add: handleResult_def)
    with k(1) k(2) show ?thesis by blast
  qed
qed

lemma registry_inv_update:
  assumes "registry_inv g" and "k < length (tasks g)" and "ID v = ID (tasks g ! k)"
  shows "registry_inv (g\<lparr>tasks := (tasks g)[k := v]\<rparr>)"
  using assms by (simp add: registry_inv_def nth_list_update)

lemma registry_inv_init: "registry_inv init"
  by (simp add: registry_inv_def init_def)

section \<open>The invariant of the registry\<close>

lemma addTask_None: "addTask None g = (BadRequest, g)"
  by (simp add: addTask_def)

lemma addTask_full:
  "length (tasks g) = MaxInt \<Longrightarrow>
   addTask (Some taskReq) g = (Aborted, g\<lparr>taskIDCounter := taskIDCounter g + 1\<rparr>)"
  by (simp add: addTask_def Let_def)

lemma addTask_room:
  "length (tasks g) < MaxInt \<Longrightarrow>
   addTask (Some taskReq) g =
     (JSON_TaskResponse (TaskResponse (taskIDCounter g + 1)),
      g\<lparr>taskIDCounter := taskIDCounter g + 1,
        tasks := tasks g @ [\<lparr>ID = taskIDCounter g + 1, Expression = reqExpression taskReq,
                             Status = ''pending'', Result = 0, StartTime = 0\<rparr>]\<rparr>)"
  by (simp add: addTask_def Let_def)

lemma registry_inv_counter:
  assumes "registry_inv g" and "length (tasks g) < MaxInt"
  shows "sint (taskIDCounter g + 1) = int (length (tasks g)) + 1"
proof -
  from assms have c: "sint (taskIDCounter g) = int (length (tasks g))"
    by (auto simp: registry_inv_def)
  from assms(2) have "int (length (tasks g)) < 2 ^ 63 - 1"
    by (simp add: MaxInt_def)
  with c have "sint (taskIDCounter g) < 2 ^ 63 - 1" by simp
  then have "sint (taskIDCounter g + 1) = sint (taskIDCounter g) + 1" by (rule sint_succ)
  with c show ?thesis by simp
qed

lemma registry_inv_addTask:
  assumes "registry_inv g"
  shows "registry_inv (snd (addTask body g))"
proof (cases body)
  case None
  with assms show ?thesis by (simp add: addTask_None)
next
  case (Some taskReq)
  show ?thesis
  proof (cases "length (tasks g) < MaxInt")
    case True
    note c = registry_inv_counter [OF assms True]
    have "\<forall>k<Suc (length (tasks g)).
            sint (ID ((tasks g @ [\<lparr>ID = taskIDCounter g + 1, Expression = reqExpression taskReq,
                             Status = ''pending'', Result = 0, StartTime = 0\<rparr>]) ! k)) = int k + 1"
    proof (intro allI impI)
      fix k assume "k < Suc (length (tasks g))"
      then consider "k < length (tasks g)" | "k = length (tasks g)" by linarith
      then show "sint (ID ((tasks g @ [\<lparr>ID = taskIDCounter g + 1, Expression = reqExpression taskReq,
                             Status = ''pending'', Result = 0, StartTime = 0\<rparr>]) ! k)) = int k + 1"
      proof cases
        case 1
        with assms show ?thesis by (simp add: registry_inv_def nth_append)
      next
        case 2
        with c show ?thesis by simp
      qed
    qed
    with True c show ?thesis by (simp add: Some addTask_room registry_inv_def)
  next
    case False
    with assms have "length (tasks g) = MaxInt" by (simp add: registry_inv_def)
    with assms show ?thesis by (simp add: Some addTask_full registry_inv_def)
  qed
qed

lemma registry_inv_getTaskForExecution:
  assumes "registry_inv g"
  shows "registry_inv (snd (getTaskForExecution now g))"
  using getTaskForExecution_shape [of now g]
proof
  assume "getTaskForExecution now g = (NotFound, g)"
  with assms show ?thesis by simp
next
  assume "\<exists>k<length (tasks g). Status (tasks g ! k) = ''pending'' \<and>
      getTaskForExecution now g =
        (JSON_Task (tasks g ! k),
         g\<lparr>tasks := (tasks g)[k := (tasks g ! k)\<lparr>Status := ''in_progress'', StartTime := now\<rparr>]\<rparr>)"
  then obtain k where k: "k < length (tasks g)"
    "getTaskForExecution now g =
        (JSON_Task (tasks g ! k),
         g\<lparr>tasks := (tasks g)[k := (tasks g ! k)\<lparr>Status := ''in_progress'', StartTime := now\<rparr>]\<rparr>)"
    by blast
  have "registry_inv (g\<lparr>tasks := (tasks g)[k := (tasks g ! k)\<lparr>Status := ''in_progress'', StartTime := now\<rparr>]\<rparr>)"
    using assms k(1) by (rule registry_inv_update) simp
  with k(2) show ?thesis by simp
qed

lemma registry_inv_handleResult:
  assumes "registry_inv g"
  shows "registry_inv (snd (handleResult body g))"
proof (cases body)
  case None
  with assms show ?thesis by (simp add: handleResult_def)
next
  case (Some task)
  from handleResult_shape [of task g] show ?thesis
  proof
    assume "handleResult (Some task) g = (NoContent, g)"
    with assms Some show ?thesis by simp
  next
    assume "\<exists>k<length (tasks g). ID (tasks g ! k) = ID task \<and>
      handleResult (Some task) g = (NoContent, g\<lparr>tasks := (tasks g)[k := task]\<rparr>)"
    then obtain k where k: "k < length (tasks g)" "ID (tasks g ! k) = ID task"
      "handleResult (Some task) g = (NoContent, g\<lparr>tasks := (tasks g)[k := task]\<rparr>)"
      by blast
    have "registry_inv (g\<lparr>tasks := (tasks g)[k := task]\<rparr>)"
      using assms k(1) by (rule registry_inv_update) (simp add: k(2))
    with k(3) Some show ?thesis by simp
  qed
qed

lemma registry_inv_serve: "registry_inv g \<Longrightarrow> registry_inv (snd (serve rq g))"
  by (cases rq)
     (simp_all add: registry_inv_addTask registry_inv_getTaskForExecution
        registry_inv_handleResult getTaskStatus_def getOperations_def)

lemma registry_inv_run: "registry_inv g \<Longrightarrow> registry_inv (snd (run rqs g))"
proof (induction rqs arbitrary: g)
  case Nil
  then show ?case by simp
next
  case (Cons rq rqs)
  from Cons.prems have "registry_inv (snd (serve rq g))" by (rule registry_inv_serve)
  then have "registry_inv (snd (run rqs (snd (serve rq g))))" by (rule Cons.IH)
  then show ?case by (simp only: snd_run_Cons)
qed

lemma registry_inv_reachable: "registry_inv (snd (run rqs init))"
  using registry_inv_init by (rule registry_inv_run)

lemma getTaskStatus_loop_cases:
  "getTaskStatus_loop q ts = NotFound \<or> (\<exists>t. getTaskStatus_loop q ts = JSON_Task t)"
  by (induction ts) simp_all

lemma createdIDs_skip:
  "r = NotFound \<or> r = NoContent \<or> r = BadRequest \<or> r = Aborted \<or> (\<exists>t. r = JSON_Task t) \<or>
   (\<exists>os. r = JSON_Operations os) \<Longrightarrow> createdIDs (r # rs) = createdIDs rs"
  by auto

lemma serve_not_create:
  assumes "\<not> isCreate rq"
  shows "createdIDs (fst (serve rq g) # rs) = createdIDs rs \<and>
         length (tasks (snd (serve rq g))) = length (tasks g)"
proof (cases rq)
  case (AddTask body)
  with assms have "body = None" by (cases body) simp_all
  with AddTask show ?thesis by (simp add: addTask_None)
next
  case (GetTaskStatus q)
  have "createdIDs (getTaskStatus_loop q (tasks g) # rs) = createdIDs rs"
    using getTaskStatus_loop_cases [of q "tasks g"] by (intro createdIDs_skip) blast
  with GetTaskStatus show ?thesis by (simp add: getTaskStatus_def)
next
  case GetOperations
  then show ?thesis by (simp add: getOperations_def)
next
  case (GetTaskForExecution now)
  from getTaskForExecution_shape [of now g]
  have "createdIDs (fst (getTaskForExecution now g) # rs) = createdIDs rs \<and>
        length (tasks (snd (getTaskForExecution now g))) = length (tasks g)"
    by (elim disjE exE conjE) simp_all
  with GetTaskForExecution show ?thesis by simp
next
  case (HandleResult body)
  show ?thesis
  proof (cases body)
    case None
    with HandleResult show ?thesis by (simp add: handleResult_def)
  next
    case (Some task)
    from handleResult_shape [of task g]
    have "createdIDs (fst (handleResult (Some task) g) # rs) = createdIDs rs \<and>
        length (tasks (snd (handleResult (Some task) g))) = length (tasks g)"
      by (elim disjE exE conjE) simp_all
    with HandleResult Some show ?thesis by simp
  qed
qed

lemma createdIDs_run:
  "registry_inv g \<Longrightarrow>
   createdIDs (fst (run rqs g)) =
     map int [Suc (length (tasks g)) ..< Suc (min (length (tasks g) + length (filter isCreate rqs)) MaxInt)]"
proof (induction rqs arbitrary: g)
  case Nil
  then show ?case by (simp add: registry_inv_def del: upt_Suc)
next
  case (Cons rq rqs)
  let ?g' = "snd (serve rq g)"
  from Cons.prems have len: "length (tasks g) \<le> MaxInt" by (simp add: registry_inv_def)
  from Cons.prems have inv': "registry_inv ?g'" by (rule registry_inv_serve)
  note IH = Cons.IH [OF inv']
  show ?case
  proof (cases "isCreate rq")
    case False
    from serve_not_create [OF False, of g "fst (run rqs ?g')"]
    have "createdIDs (fst (run (rq # rqs) g)) = createdIDs (fst (run rqs ?g'))"
      and l: "length (tasks ?g') = length (tasks g)"
      by (simp_all only: fst_run_Cons)
    with IH False show ?thesis by (simp del: upt_Suc)
  next
    case True
    then obtain taskReq where rq: "rq = AddTask (Some taskReq)"
      by (cases rq rule: isCreate.cases) simp_all
    show ?thesis
    proof (cases "length (tasks g) < MaxInt")
      case room: True
      note c = registry_inv_counter [OF Cons.prems room]
      have s: "serve rq g = (JSON_TaskResponse (TaskResponse (taskIDCounter g + 1)),
        g\<lparr>taskIDCounter := taskIDCounter g + 1,
          tasks := tasks g @ [\<lparr>ID = taskIDCounter g + 1, Expression = reqExpression taskReq,
                             Status = ''pending'', Result = 0, StartTime = 0\<rparr>]\<rparr>)"
        by (simp add: rq addTask_room [OF room])
      have l: "length (tasks ?g') = Suc (length (tasks g))" by (simp add: s)
      have "createdIDs (fst (run (rq # rqs) g)) =
              (int (length (tasks g)) + 1) # createdIDs (fst (run rqs ?g'))"
        by (simp add: fst_run_Cons s c del: run.simps)
      also have "createdIDs (fst (run rqs ?g')) =
          map int [Suc (Suc (length (tasks g))) ..<
                   Suc (min (Suc (length (tasks g)) + length (filter isCreate rqs)) MaxInt)]"
        using IH by (simp only: l)
      also have "(int (length (tasks g)) + 1) #
          map int [Suc (Suc (length (tasks g))) ..<
                   Suc (min (Suc (length (tasks g)) + length (filter isCreate rqs)) MaxInt)] =
          map int [Suc (length (tasks g)) ..<
                   Suc (min (length (tasks g) + length (filter isCreate (rq # rqs))) MaxInt)]"
      proof -
        have f: "length (tasks g) + length (filter isCreate (rq # rqs)) =
                 Suc (length (tasks g)) + length (filter isCreate rqs)"
          using True by simp
        have "Suc (length (tasks g)) <
                Suc (min (Suc (length (tasks g)) + length (filter isCreate rqs)) MaxInt)"
          using room by simp
        then have "[Suc (length (tasks g)) ..<
                     Suc (min (Suc (length (tasks g)) + length (filter isCreate rqs)) MaxInt)] =
                   Suc (length (tasks g)) # [Suc (Suc (length (tasks g))) ..<
                     Suc (min (Suc (length (tasks g)) + length (filter isCreate rqs)) MaxInt)]"
          by (rule upt_conv_Cons)
        then show ?thesis by (simp only: f list.map) simp
      qed
      finally show ?thesis .
    next
      case full: False
      with len have e: "length (tasks g) = MaxInt" by simp
      have s: "serve rq g = (Aborted, g\<lparr>taskIDCounter := taskIDCounter g + 1\<rparr>)"
        by (simp add: rq addTask_full [OF e])
      have l: "length (tasks ?g') = length (tasks g)" by (simp add: s)
      have "createdIDs (fst (run (rq # rqs) g)) = createdIDs (fst (run rqs ?g'))"
        by (simp add: fst_run_Cons s del: run.simps)
      with IH show ?thesis by (simp add: l e del: upt_Suc)
    qed
  qed
qed

section \<open>Statuses under forward reports\<close>

lemma advanced_refl: "advanced ts ts"
  by (simp add: advanced_def)

lemma advanced_trans: "advanced ts ts' \<Longrightarrow> advanced ts' ts'' \<Longrightarrow> advanced ts ts''"
  unfolding advanced_def by (meson le_trans less_le_trans)

lemma advanced_append: "advanced ts (ts @ [t])"
  by (simp add: advanced_def nth_append)

lemma advanced_update:
  "k < length ts \<Longrightarrow> statusRank (Status (ts ! k)) \<le> statusRank (Status v) \<Longrightarrow>
   advanced ts (ts[k := v])"
  by (simp add: advanced_def nth_list_update)

lemma valid_update:
  "\<forall>t\<in>set ts. validStatus (Status t) \<Longrightarrow> validStatus (Status v) \<Longrightarrow>
   \<forall>t\<in>set (ts[k := v]). validStatus (Status t)"
  using set_update_subset_insert [of ts k v] by auto

lemma addTask_tasks:
  "tasks (snd (addTask body g)) = tasks g \<or>
   (\<exists>i e. tasks (snd (addTask body g)) =
      tasks g @ [\<lparr>ID = i, Expression = e, Status = ''pending'', Result = 0, StartTime = 0\<rparr>])"
  by (cases body) (simp_all add: addTask_def Let_def)

lemma serve_advanced:
  assumes "forwardReport rq g"
  shows "advanced (tasks g) (tasks (snd (serve rq g)))"
proof (cases rq)
  case (AddTask body)
  from addTask_tasks [of body g] have "advanced (tasks g) (tasks (snd (addTask body g)))"
    by (elim disjE exE) (simp_all add: advanced_refl advanced_append)
  with AddTask show ?thesis by simp
next
  case (GetTaskStatus q)
  then show ?thesis by (simp add: getTaskStatus_def advanced_refl)
next
  case GetOperations
  then show ?thesis by (simp add: getOperations_def advanced_refl)
next
  case (GetTaskForExecution now)
  from getTaskForExecution_shape [of now g]
  have "advanced (tasks g) (tasks (snd (getTaskForExecution now g)))"
  proof
    assume "getTaskForExecution now g = (NotFound, g)"
    then show ?thesis by (simp add: advanced_refl)
  next
    assume "\<exists>k<length (tasks g). Status (tasks g ! k) = ''pending'' \<and>
      getTaskForExecution now g =
        (JSON_Task (tasks g ! k),
         g\<lparr>tasks := (tasks g)[k := (tasks g ! k)\<lparr>Status := ''in_progress'', StartTime := now\<rparr>]\<rparr>)"
    then obtain k where k: "k < length (tasks g)" "Status (tasks g ! k) = ''pending''"
      "getTaskForExecution now g =
        (JSON_Task (tasks g ! k),
         g\<lparr>tasks := (tasks g)[k := (tasks g ! k)\<lparr>Status := ''in_progress'', StartTime := now\<rparr>]\<rparr>)"
      by blast
    have "advanced (tasks g)
            ((tasks g)[k := (tasks g ! k)\<lparr>Status := ''in_progress'', StartTime := now\<rparr>])"
      using k(1) by (rule advanced_update) (simp add: k(2) statusRank_def)
    then show ?thesis by (simp add: k(3))
  qed
  with GetTaskForExecution show ?thesis by simp
next
  case (HandleResult body)
  show ?thesis
  proof (cases body)
    case None
    with HandleResult show ?thesis by (simp add: handleResult_def advanced_refl)
  next
    case (Some task)
    from assms HandleResult Some
    have fw: "\<forall>t\<in>set (tasks g). ID t = ID task \<longrightarrow> statusRank (Status t) \<le> statusRank (Status task)"
      by simp
    from handleResult_shape [of task g]
    have "advanced (tasks g) (tasks (snd (handleResult (Some task) g)))"
    proof
      assume "handleResult (Some task) g = (NoContent, g)"
      then show ?thesis by (simp add: advanced_refl)
    next
      assume "\<exists>k<length (tasks g). ID (tasks g ! k) = ID task \<and>
        handleResult (Some task) g = (NoContent, g\<lparr>tasks := (tasks g)[k := task]\<rparr>)"
      then obtain k where k: "k < length (tasks g)" "ID (tasks g ! k) = ID task"
        "handleResult (Some task) g = (NoContent, g\<lparr>tasks := (tasks g)[k := task]\<rparr>)"
        by blast
      from k(1) have "tasks g ! k \<in> set (tasks g)" by simp
      with fw k(2) have "statusRank (Status (tasks g ! k)) \<le> statusRank (Status task)" by blast
      with k(1) have "advanced (tasks g) ((tasks g)[k := task])" by (rule advanced_update)
      then show ?thesis by (simp add: k(3))
    qed
    with HandleResult Some show ?thesis by simp
  qed
qed

lemma serve_valid:
  assumes "forwardReport rq g" and "\<forall>t\<in>set (tasks g). validStatus (Status t)"
  shows "\<forall>t\<in>set (tasks (snd (serve rq g))). validStatus (Status t)"
proof (cases rq)
  case (AddTask body)
  from addTask_tasks [of body g] assms(2)
  have "\<forall>t\<in>set (tasks (snd (addTask body g))). validStatus (Status t)"
    by (elim disjE exE) (simp_all add: validStatus_def)
  with AddTask show ?thesis by simp
next
  case (GetTaskStatus q)
  with assms(2) show ?thesis by (simp add: getTaskStatus_def)
next
  case GetOperations
  with assms(2) show ?thesis by (simp add: getOperations_def)
next
  case (GetTaskForExecution now)
  from getTaskForExecution_shape [of now g]
  have "\<forall>t\<in>set (tasks (snd (getTaskForExecution now g))). validStatus (Status t)"
  proof
    assume "getTaskForExecution now g = (NotFound, g)"
    with assms(2) show ?thesis by simp
  next
    assume "\<exists>k<length (tasks g). Status (tasks g ! k) = ''pending'' \<and>
      getTaskForExecution now g =
        (JSON_Task (tasks g ! k),
         g\<lparr>tasks := (tasks g)[k := (tasks g ! k)\<lparr>Status := ''in_progress'', StartTime := now\<rparr>]\<rparr>)"
    then obtain k where k:
      "getTaskForExecution now g =
        (JSON_Task (tasks g ! k),
         g\<lparr>tasks := (tasks g)[k := (tasks g ! k)\<lparr>Status := ''in_progress'', StartTime := now\<rparr>]\<rparr>)"
      by blast
    have "\<forall>t\<in>set ((tasks g)[k := (tasks g ! k)\<lparr>Status := ''in_progress'', StartTime := now\<rparr>]).
            validStatus (Status t)"
      using assms(2) by (rule valid_update) (simp add: validStatus_def)
    then show ?thesis by (simp add: k)
  qed
  with GetTaskForExecution show ?thesis by simp
next
  case (HandleResult body)
  show ?thesis
  proof (cases body)
    case None
    with HandleResult assms(2) show ?thesis by (simp add: handleResult_def)
  next
    case (Some task)
    from assms(1) HandleResult Some have v: "validStatus (Status task)" by simp
    from handleResult_shape [of task g]
    have "\<forall>t\<in>set (tasks (snd (handleResult (Some task) g))). validStatus (Status t)"
    proof
      assume "handleResult (Some task) g = (NoContent, g)"
      with assms(2) show ?thesis by simp
    next
      assume "\<exists>k<length (tasks g). ID (tasks g ! k) = ID task \<and>
        handleResult (Some task) g = (NoContent, g\<lparr>tasks := (tasks g)[k := task]\<rparr>)"
      then obtain k where k:
        "handleResult (Some task) g = (NoContent, g\<lparr>tasks := (tasks g)[k := task]\<rparr>)"
        by blast
      have "\<forall>t\<in>set ((tasks g)[k := task]). validStatus (Status t)"
        using assms(2) v by (rule valid_update)
      then show ?thesis by (simp add: k)
    qed
    with HandleResult Some show ?thesis by simp
  qed
qed

lemma run_advanced:
  "forwardReports rqs g \<Longrightarrow> advanced (tasks g) (tasks (snd (run rqs g)))"
proof (induction rqs arbitrary: g)
  case Nil
  show ?case by (simp add: advanced_refl)
next
  case (Cons rq rqs)
  from Cons.prems have f: "forwardReport rq g" and r: "forwardReports rqs (snd (serve rq g))"
    by simp_all
  have "advanced (tasks g) (tasks (snd (serve rq g)))" using f by (rule serve_advanced)
  moreover have "advanced (tasks (snd (serve rq g))) (tasks (snd (run rqs (snd (serve rq g)))))"
    using r by (rule Cons.IH)
  ultimately have "advanced (tasks g) (tasks (snd (run rqs (snd (serve rq g)))))"
    by (rule advanced_trans)
  then show ?case by (simp only: snd_run_Cons)
qed

lemma run_valid:
  "forwardReports rqs g \<Longrightarrow> \<forall>t\<in>set (tasks g). validStatus (Status t) \<Longrightarrow>
   \<forall>t\<in>set (tasks (snd (run rqs g))). validStatus (Status t)"
proof (induction rqs arbitrary: g)
  case Nil
  then show ?case by simp
next
  case (Cons rq rqs)
  from Cons.prems(1) have f: "forwardReport rq g" and r: "forwardReports rqs (snd (serve rq g))"
    by simp_all
  have "\<forall>t\<in>set (tasks (snd (serve rq g))). validStatus (Status t)"
    using f Cons.prems(2) by (rule serve_valid)
  with r have "\<forall>t\<in>set (tasks (snd (run rqs (snd (serve rq g))))). validStatus (Status t)"
    by (rule Cons.IH)
  then show ?case by (simp only: snd_run_Cons)
qed

lemma snd_run_append: "snd (run (pre @ post) g) = snd (run post (snd (run pre g)))"
proof (induction pre arbitrary: g)
  case Nil
  show ?case by simp
next
  case (Cons rq pre)
  have "snd (run ((rq # pre) @ post) g) = snd (run (pre @ post) (snd (serve rq g)))"
    by (simp only: append_Cons snd_run_Cons)
  also have "\<dots> = snd (run post (snd (run pre (snd (serve rq g)))))" by (rule Cons.IH)
  finally show ?case by (simp only: snd_run_Cons)
qed

lemma forwardReports_append:
  "forwardReports (pre @ post) g \<longleftrightarrow>
   forwardReports pre g \<and> forwardReports post (snd (run pre g))"
proof (induction pre arbitrary: g)
  case Nil
  show ?case by simp
next
  case (Cons rq pre)
  show ?case using Cons.IH [of "snd (serve rq g)"]
    by (simp add: snd_run_Cons del: run.simps)
qed

section \<open>Interleaved claims: the invariant\<close>

lemma same_pred_update:
  "k0 < length cs \<Longrightarrow> P c = P (cs ! k0) \<Longrightarrow> k < length cs \<Longrightarrow> P (cs[k0 := c] ! k) = P (cs ! k)"
  by (simp add: nth_list_update)

lemma at_most_one_same:
  "k0 < length cs \<Longrightarrow> P c = P (cs ! k0) \<Longrightarrow> at_most_one P (cs[k0 := c]) = at_most_one P cs"
  by (simp add: at_most_one_def same_pred_update)

lemma some_call_same:
  "k0 < length cs \<Longrightarrow> P c = P (cs ! k0) \<Longrightarrow> some_call P (cs[k0 := c]) = some_call P cs"
  by (simp add: some_call_def same_pred_update cong: conj_cong)

lemma at_most_one_first:
  "k0 < length cs \<Longrightarrow> \<not> some_call P cs \<Longrightarrow> at_most_one P (cs[k0 := c])"
  by (auto simp: at_most_one_def some_call_def nth_list_update split: if_splits)

lemma some_call_new:
  "k0 < length cs \<Longrightarrow> P c \<Longrightarrow> some_call P (cs[k0 := c])"
  unfolding some_call_def by (rule exI [of _ k0]) simp

lemma some_call_gone:
  "k0 < length cs \<Longrightarrow> at_most_one P cs \<Longrightarrow> P (cs ! k0) \<Longrightarrow> \<not> P c \<Longrightarrow> \<not> some_call P (cs[k0 := c])"
  by (auto simp: at_most_one_def some_call_def nth_list_update split: if_splits)

lemma at_most_one_gone:
  "k0 < length cs \<Longrightarrow> at_most_one P cs \<Longrightarrow> \<not> P c \<Longrightarrow> at_most_one P (cs[k0 := c])"
  by (auto simp: at_most_one_def nth_list_update split: if_splits)

lemma some_call_kept:
  "k0 < length cs \<Longrightarrow> \<not> P (cs ! k0) \<Longrightarrow> some_call P cs \<Longrightarrow> some_call P (cs[k0 := c])"
  unfolding some_call_def by (metis length_list_update nth_list_update_neq)

lemma others_inactive:
  "at_most_one active cs \<Longrightarrow> k0 < length cs \<Longrightarrow> active (cs ! k0) \<Longrightarrow> k < length cs \<Longrightarrow> k \<noteq> k0 \<Longrightarrow>
   \<not> active (cs ! k)"
  by (auto simp: at_most_one_def)

lemma local_ok_inactive:
  "\<not> active c \<Longrightarrow> local_ok ts0 ts c \<Longrightarrow>
   \<forall>j<length ts0. Status (ts ! j) \<noteq> ''pending'' \<longrightarrow> Status (ts' ! j) \<noteq> ''pending'' \<Longrightarrow>
   local_ok ts0 ts' c"
  by (cases c) auto

lemma local_ok_update:
  assumes "\<forall>k<length cs. local_ok ts0 ts (cs ! k)" and "k0 < length cs"
    and "local_ok ts0 ts c"
  shows "\<forall>k<length (cs[k0 := c]). local_ok ts0 ts (cs[k0 := c] ! k)"
  using assms by (simp add: nth_list_update)

lemma local_ok_update_mem:
  assumes "\<forall>k<length cs. local_ok ts0 ts (cs ! k)" and "k0 < length cs"
    and "at_most_one active cs" and "active (cs ! k0)"
    and "local_ok ts0 ts' c"
    and "\<forall>j<length ts0. Status (ts ! j) \<noteq> ''pending'' \<longrightarrow> Status (ts' ! j) \<noteq> ''pending''"
  shows "\<forall>k<length (cs[k0 := c]). local_ok ts0 ts' (cs[k0 := c] ! k)"
proof (intro allI impI)
  fix k assume k: "k < length (cs[k0 := c])"
  show "local_ok ts0 ts' (cs[k0 := c] ! k)"
  proof (cases "k = k0")
    case True
    with assms(2) assms(5) show ?thesis by simp
  next
    case False
    from k have kl: "k < length cs" by simp
    have "\<not> active (cs ! k)" using assms(3) assms(2) assms(4) kl False by (rule others_inactive)
    moreover have "local_ok ts0 ts (cs ! k)" using assms(1) kl by simp
    ultimately have "local_ok ts0 ts' (cs ! k)" using assms(6) by (rule local_ok_inactive)
    with False show ?thesis by simp
  qed
qed

lemma claim_inv_local:
  "claim_inv ts0 s \<Longrightarrow> k < length (calls s) \<Longrightarrow> local_ok ts0 (tasks (mem s)) (calls s ! k)"
  by (simp add: claim_inv_def)

lemma claim_inv_move:
  assumes inv: "claim_inv ts0 s" and k: "k < length (calls s)"
    and act: "active c = active (calls s ! k)" and sel: "selected c = selected (calls s ! k)"
    and loc: "local_ok ts0 (tasks (mem s)) c"
  shows "claim_inv ts0 \<lparr>mem = mem s, tasksMutex = tasksMutex s, calls = (calls s)[k := c]\<rparr>"
proof -
  have a1: "some_call active ((calls s)[k := c]) = some_call active (calls s)"
    using k act by (rule some_call_same)
  have a2: "at_most_one active ((calls s)[k := c]) = at_most_one active (calls s)"
    using k act by (rule at_most_one_same)
  have h1: "\<And>i. at_most_one (\<lambda>c. selected c = Some i) ((calls s)[k := c]) =
                 at_most_one (\<lambda>c. selected c = Some i) (calls s)"
    using k by (rule at_most_one_same) (simp add: sel)
  have h2: "\<And>i. some_call (\<lambda>c. selected c = Some i) ((calls s)[k := c]) =
                 some_call (\<lambda>c. selected c = Some i) (calls s)"
    using k by (rule some_call_same) (simp add: sel)
  have lo: "\<forall>j<length ((calls s)[k := c]). local_ok ts0 (tasks (mem s)) ((calls s)[k := c] ! j)"
  proof (rule local_ok_update)
    show "\<forall>j<length (calls s). local_ok ts0 (tasks (mem s)) (calls s ! j)"
      using inv by (simp add: claim_inv_def)
    show "k < length (calls s)" by (rule k)
    show "local_ok ts0 (tasks (mem s)) c" by (rule loc)
  qed
  from inv lo show ?thesis by (simp add: claim_inv_def a1 a2 h1 h2)
qed

lemma claim_inv_lock:
  assumes inv: "claim_inv ts0 s" and k: "k < length (calls s)"
    and free: "\<not> tasksMutex s"
    and act: "active c" and sel: "selected c = selected (calls s ! k)"
    and loc: "local_ok ts0 (tasks (mem s)) c"
  shows "claim_inv ts0 \<lparr>mem = mem s, tasksMutex = True, calls = (calls s)[k := c]\<rparr>"
proof -
  from inv free have none: "\<not> some_call active (calls s)" by (simp add: claim_inv_def)
  have a1: "some_call active ((calls s)[k := c])" using k act by (rule some_call_new)
  have a2: "at_most_one active ((calls s)[k := c])" using k none by (rule at_most_one_first)
  have h1: "\<And>i. at_most_one (\<lambda>c. selected c = Some i) ((calls s)[k := c]) =
                 at_most_one (\<lambda>c. selected c = Some i) (calls s)"
    using k by (rule at_most_one_same) (simp add: sel)
  have h2: "\<And>i. some_call (\<lambda>c. selected c = Some i) ((calls s)[k := c]) =
                 some_call (\<lambda>c. selected c = Some i) (calls s)"
    using k by (rule some_call_same) (simp add: sel)
  have lo: "\<forall>j<length ((calls s)[k := c]). local_ok ts0 (tasks (mem s)) ((calls s)[k := c] ! j)"
  proof (rule local_ok_update)
    show "\<forall>j<length (calls s). local_ok ts0 (tasks (mem s)) (calls s ! j)"
      using inv by (simp add: claim_inv_def)
    show "k < length (calls s)" by (rule k)
    show "local_ok ts0 (tasks (mem s)) c" by (rule loc)
  qed
  from inv a1 a2 lo show ?thesis by (simp add: claim_inv_def h1 h2)
qed

lemma claim_inv_unlock:
  assumes inv: "claim_inv ts0 s" and k: "k < length (calls s)"
    and act: "active (calls s ! k)" and act': "\<not> active c"
    and sel: "selected c = selected (calls s ! k)"
    and loc: "local_ok ts0 (tasks (mem s)) c"
  shows "claim_inv ts0 \<lparr>mem = mem s, tasksMutex = False, calls = (calls s)[k := c]\<rparr>"
proof -
  from inv have amo: "at_most_one active (calls s)" by (simp add: claim_inv_def)
  have a1: "\<not> some_call active ((calls s)[k := c])"
    using k amo act act' by (rule some_call_gone)
  have a2: "at_most_one active ((calls s)[k := c])"
    using k amo act' by (rule at_most_one_gone)
  have h1: "\<And>i. at_most_one (\<lambda>c. selected c = Some i) ((calls s)[k := c]) =
                 at_most_one (\<lambda>c. selected c = Some i) (calls s)"
    using k by (rule at_most_one_same) (simp add: sel)
  have h2: "\<And>i. some_call (\<lambda>c. selected c = Some i) ((calls s)[k := c]) =
                 some_call (\<lambda>c. selected c = Some i) (calls s)"
    using k by (rule some_call_same) (simp add: sel)
  have lo: "\<forall>j<length ((calls s)[k := c]). local_ok ts0 (tasks (mem s)) ((calls s)[k := c] ! j)"
  proof (rule local_ok_update)
    show "\<forall>j<length (calls s). local_ok ts0 (tasks (mem s)) (calls s ! j)"
      using inv by (simp add: claim_inv_def)
    show "k < length (calls s)" by (rule k)
    show "local_ok ts0 (tasks (mem s)) c" by (rule loc)
  qed
  from inv a1 a2 lo show ?thesis by (simp add: claim_inv_def h1 h2)
qed

lemma claim_inv_select:
  assumes inv: "claim_inv ts0 s" and k: "k < length (calls s)"
    and act: "active c = active (calls s ! k)"
    and sel0: "selected (calls s ! k) = None" and sel: "selected c = Some i"
    and fresh: "\<not> some_call (\<lambda>c. selected c = Some i) (calls s)"
    and loc: "local_ok ts0 (tasks (mem s)) c"
  shows "claim_inv ts0 \<lparr>mem = mem s, tasksMutex = tasksMutex s, calls = (calls s)[k := c]\<rparr>"
proof -
  have a1: "some_call active ((calls s)[k := c]) = some_call active (calls s)"
    using k act by (rule some_call_same)
  have a2: "at_most_one active ((calls s)[k := c]) = at_most_one active (calls s)"
    using k act by (rule at_most_one_same)
  have h1: "\<forall>i'. at_most_one (\<lambda>c. selected c = Some i') ((calls s)[k := c])"
  proof
    fix i'
    show "at_most_one (\<lambda>c. selected c = Some i') ((calls s)[k := c])"
    proof (cases "i' = i")
      case True
      from k fresh show ?thesis unfolding True by (rule at_most_one_first)
    next
      case False
      have "at_most_one (\<lambda>c. selected c = Some i') ((calls s)[k := c]) =
            at_most_one (\<lambda>c. selected c = Some i') (calls s)"
        using k by (rule at_most_one_same) (use False in \<open>simp add: sel sel0\<close>)
      with inv show ?thesis by (simp add: claim_inv_def)
    qed
  qed
  have h2: "\<forall>i'<length ts0. Status (ts0 ! i') = ''pending'' \<and> Status (tasks (mem s) ! i') \<noteq> ''pending'' \<longrightarrow>
              some_call (\<lambda>c. selected c = Some i') ((calls s)[k := c])"
  proof (intro allI impI)
    fix i' assume "i' < length ts0"
      and "Status (ts0 ! i') = ''pending'' \<and> Status (tasks (mem s) ! i') \<noteq> ''pending''"
    with inv have "some_call (\<lambda>c. selected c = Some i') (calls s)" by (simp add: claim_inv_def)
    with k show "some_call (\<lambda>c. selected c = Some i') ((calls s)[k := c])"
      by (intro some_call_kept) (simp_all add: sel0)
  qed
  have lo: "\<forall>j<length ((calls s)[k := c]). local_ok ts0 (tasks (mem s)) ((calls s)[k := c] ! j)"
  proof (rule local_ok_update)
    show "\<forall>j<length (calls s). local_ok ts0 (tasks (mem s)) (calls s ! j)"
      using inv by (simp add: claim_inv_def)
    show "k < length (calls s)" by (rule k)
    show "local_ok ts0 (tasks (mem s)) c" by (rule loc)
  qed
  from inv h1 h2 lo show ?thesis by (simp add: claim_inv_def a1 a2)
qed

lemma claim_inv_write:
  assumes inv: "claim_inv ts0 s" and k: "k < length (calls s)"
    and act: "active (calls s ! k)" and act': "active c"
    and sel0: "selected (calls s ! k) = Some i" and sel: "selected c = Some i"
    and len: "length ts' = length ts0"
    and oth: "\<forall>j<length ts0. j \<noteq> i \<longrightarrow> ts' ! j = tasks (mem s) ! j"
    and st: "Status (ts' ! i) \<noteq> ''pending''"
    and loc: "local_ok ts0 ts' c"
  shows "claim_inv ts0
           \<lparr>mem = (mem s)\<lparr>tasks := ts'\<rparr>, tasksMutex = tasksMutex s, calls = (calls s)[k := c]\<rparr>"
proof -
  from inv have amo: "at_most_one active (calls s)" by (simp add: claim_inv_def)
  have ae: "active c = active (calls s ! k)" using act act' by simp
  have a1: "some_call active ((calls s)[k := c]) = some_call active (calls s)"
    using k ae by (rule some_call_same)
  have a2: "at_most_one active ((calls s)[k := c]) = at_most_one active (calls s)"
    using k ae by (rule at_most_one_same)
  have h1: "\<And>i'. at_most_one (\<lambda>c. selected c = Some i') ((calls s)[k := c]) =
                 at_most_one (\<lambda>c. selected c = Some i') (calls s)"
    using k by (rule at_most_one_same) (simp add: sel sel0)
  have h2: "\<And>i'. some_call (\<lambda>c. selected c = Some i') ((calls s)[k := c]) =
                 some_call (\<lambda>c. selected c = Some i') (calls s)"
    using k by (rule some_call_same) (simp add: sel sel0)
  have mono: "\<forall>j<length ts0. Status (tasks (mem s) ! j) \<noteq> ''pending'' \<longrightarrow> Status (ts' ! j) \<noteq> ''pending''"
  proof (intro allI impI)
    fix j assume j: "j < length ts0" "Status (tasks (mem s) ! j) \<noteq> ''pending''"
    show "Status (ts' ! j) \<noteq> ''pending''"
    proof (cases "j = i")
      case True
      with st show ?thesis by simp
    next
      case False
      with oth j(1) have "ts' ! j = tasks (mem s) ! j" by simp
      with j(2) show ?thesis by simp
    qed
  qed
  have stab: "\<forall>j<length ts0. Status (ts' ! j) = ''pending'' \<longrightarrow> ts' ! j = ts0 ! j"
  proof (intro allI impI)
    fix j assume j: "j < length ts0" "Status (ts' ! j) = ''pending''"
    with st have ne: "j \<noteq> i" by auto
    with oth j(1) have e: "ts' ! j = tasks (mem s) ! j" by simp
    with j(2) have "Status (tasks (mem s) ! j) = ''pending''" by simp
    with inv j(1) have "tasks (mem s) ! j = ts0 ! j" by (simp add: claim_inv_def)
    with e show "ts' ! j = ts0 ! j" by simp
  qed
  have hh: "\<forall>i'<length ts0. Status (ts0 ! i') = ''pending'' \<and> Status (ts' ! i') \<noteq> ''pending'' \<longrightarrow>
              some_call (\<lambda>c. selected c = Some i') (calls s)"
  proof (intro allI impI)
    fix i' assume i': "i' < length ts0"
      and p: "Status (ts0 ! i') = ''pending'' \<and> Status (ts' ! i') \<noteq> ''pending''"
    show "some_call (\<lambda>c. selected c = Some i') (calls s)"
    proof (cases "i' = i")
      case True
      show ?thesis unfolding some_call_def True using k sel0 by blast
    next
      case False
      with oth i' have "ts' ! i' = tasks (mem s) ! i'" by simp
      with p inv i' show ?thesis by (simp add: claim_inv_def)
    qed
  qed
  have lo: "\<forall>j<length ((calls s)[k := c]). local_ok ts0 ts' ((calls s)[k := c] ! j)"
  proof (rule local_ok_update_mem)
    show "\<forall>j<length (calls s). local_ok ts0 (tasks (mem s)) (calls s ! j)"
      using inv by (simp add: claim_inv_def)
    show "k < length (calls s)" by (rule k)
    show "at_most_one active (calls s)" by (rule amo)
    show "active (calls s ! k)" by (rule act)
    show "local_ok ts0 ts' c" by (rule loc)
    show "\<forall>j<length ts0. Status (tasks (mem s) ! j) \<noteq> ''pending'' \<longrightarrow> Status (ts' ! j) \<noteq> ''pending''"
      by (rule mono)
  qed
  from inv have "tasksMutex s = some_call active (calls s)"
    and "\<forall>i. at_most_one (\<lambda>c. selected c = Some i) (calls s)"
    by (simp_all add: claim_inv_def)
  with len stab amo hh lo show ?thesis by (simp add: claim_inv_def a1 a2 h1 h2)
qed

lemma sys_step_SomeD:
  assumes "sys_step k now s = Some s'"
  shows "k < length (calls s) \<and>
         (\<exists>c g locked. thread_step now (calls s ! k) (mem s) (tasksMutex s) = Some (c, g, locked) \<and>
            s' = \<lparr>mem = g, tasksMutex = locked, calls = (calls s)[k := c]\<rparr>)"
  using assms by (auto simp: sys_step_def split: if_splits option.splits)

lemma claim_inv_Loop:
  assumes inv: "claim_inv ts0 s" and k: "k < length (calls s)" and c: "calls s ! k = Loop i n"
  shows "claim_inv ts0
           \<lparr>mem = mem s, tasksMutex = tasksMutex s,
            calls = (calls s)[k := (if i < n then Test i n (tasks (mem s) ! i) else ReplyNotFound)]\<rparr>"
proof -
  from claim_inv_local [OF inv k] c
  have l: "n = length ts0" "\<forall>j<length ts0. j < i \<longrightarrow> Status (tasks (mem s) ! j) \<noteq> ''pending''"
    by simp_all
  show ?thesis using inv k
  proof (rule claim_inv_move)
    show "active (if i < n then Test i n (tasks (mem s) ! i) else ReplyNotFound) = active (calls s ! k)"
      by (simp add: c)
    show "selected (if i < n then Test i n (tasks (mem s) ! i) else ReplyNotFound) = selected (calls s ! k)"
      by (simp add: c)
    show "local_ok ts0 (tasks (mem s)) (if i < n then Test i n (tasks (mem s) ! i) else ReplyNotFound)"
      using l by auto
  qed
qed

lemma claim_inv_Test:
  assumes inv: "claim_inv ts0 s" and k: "k < length (calls s)" and c: "calls s ! k = Test i n task"
  shows "claim_inv ts0
           \<lparr>mem = mem s, tasksMutex = tasksMutex s,
            calls = (calls s)[k := (if Status task = ''pending'' then SetStatus i task
                                    else Loop (Suc i) n)]\<rparr>"
proof -
  from claim_inv_local [OF inv k] c
  have l: "n = length ts0" "i < n" "task = tasks (mem s) ! i"
    "\<forall>j<length ts0. j < i \<longrightarrow> Status (tasks (mem s) ! j) \<noteq> ''pending''" by simp_all
  show ?thesis
  proof (cases "Status task = ''pending''")
    case True
    from inv l(1) l(2) l(3) True have e: "tasks (mem s) ! i = ts0 ! i" by (simp add: claim_inv_def)
    have fresh: "\<not> some_call (\<lambda>c. selected c = Some i) (calls s)"
    proof
      assume "some_call (\<lambda>c. selected c = Some i) (calls s)"
      then obtain j where j: "j < length (calls s)" "selected (calls s ! j) = Some i"
        by (auto simp: some_call_def)
      with c have ne: "j \<noteq> k" by auto
      from inv have "at_most_one active (calls s)" by (simp add: claim_inv_def)
      moreover have "active (calls s ! k)" by (simp add: c)
      ultimately have na: "\<not> active (calls s ! j)" using k j(1) ne by (intro others_inactive)
      from claim_inv_local [OF inv j(1)] j(2) na
      have "Status (tasks (mem s) ! i) \<noteq> ''pending''" by (cases "calls s ! j") simp_all
      with True l(3) show False by simp
    qed
    have "claim_inv ts0 \<lparr>mem = mem s, tasksMutex = tasksMutex s, calls = (calls s)[k := SetStatus i task]\<rparr>"
      using inv k
    proof (rule claim_inv_select)
      show "active (SetStatus i task) = active (calls s ! k)" by (simp add: c)
      show "selected (calls s ! k) = None" by (simp add: c)
      show "selected (SetStatus i task) = Some i" by simp
      show "\<not> some_call (\<lambda>c. selected c = Some i) (calls s)" by (rule fresh)
      show "local_ok ts0 (tasks (mem s)) (SetStatus i task)"
        using l True e by simp
    qed
    with True show ?thesis by simp
  next
    case False
    have all: "\<forall>j<length ts0. j < Suc i \<longrightarrow> Status (tasks (mem s) ! j) \<noteq> ''pending''"
    proof (intro allI impI)
      fix j assume j: "j < length ts0" "j < Suc i"
      then consider "j < i" | "j = i" by linarith
      then show "Status (tasks (mem s) ! j) \<noteq> ''pending''"
      proof cases
        case 1
        with l(4) j(1) show ?thesis by simp
      next
        case 2
        with False l(3) show ?thesis by simp
      qed
    qed
    have "claim_inv ts0 \<lparr>mem = mem s, tasksMutex = tasksMutex s, calls = (calls s)[k := Loop (Suc i) n]\<rparr>"
      using inv k
    proof (rule claim_inv_move)
      show "active (Loop (Suc i) n) = active (calls s ! k)" by (simp add: c)
      show "selected (Loop (Suc i) n) = selected (calls s ! k)" by (simp add: c)
      show "local_ok ts0 (tasks (mem s)) (Loop (Suc i) n)" using l(1) all by simp
    qed
    with False show ?thesis by simp
  qed
qed

lemma claim_inv_SetStatus:
  assumes inv: "claim_inv ts0 s" and k: "k < length (calls s)"
    and c: "calls s ! k = SetStatus i task"
  shows "claim_inv ts0
           \<lparr>mem = (mem s)\<lparr>tasks := (tasks (mem s))[i := (tasks (mem s) ! i)\<lparr>Status := ''in_progress''\<rparr>]\<rparr>,
            tasksMutex = tasksMutex s, calls = (calls s)[k := SetStartTime i task]\<rparr>"
proof -
  from claim_inv_local [OF inv k] c
  have l: "i < length ts0" "task = ts0 ! i" "Status (ts0 ! i) = ''pending''"
    "\<forall>j<length ts0. j < i \<longrightarrow> Status (tasks (mem s) ! j) \<noteq> ''pending''" by simp_all
  from inv have len: "length (tasks (mem s)) = length ts0" by (simp add: claim_inv_def)
  show ?thesis using inv k
  proof (rule claim_inv_write)
    show "active (calls s ! k)" by (simp add: c)
    show "active (SetStartTime i task)" by simp
    show "selected (calls s ! k) = Some i" by (simp add: c)
    show "selected (SetStartTime i task) = Some i" by simp
    show "length ((tasks (mem s))[i := (tasks (mem s) ! i)\<lparr>Status := ''in_progress''\<rparr>]) = length ts0"
      using len by simp
    show "\<forall>j<length ts0. j \<noteq> i \<longrightarrow>
            (tasks (mem s))[i := (tasks (mem s) ! i)\<lparr>Status := ''in_progress''\<rparr>] ! j = tasks (mem s) ! j"
      by simp
    show "Status ((tasks (mem s))[i := (tasks (mem s) ! i)\<lparr>Status := ''in_progress''\<rparr>] ! i) \<noteq> ''pending''"
      using l(1) len by simp
    show "local_ok ts0 ((tasks (mem s))[i := (tasks (mem s) ! i)\<lparr>Status := ''in_progress''\<rparr>])
            (SetStartTime i task)"
      using l len by simp
  qed
qed

lemma claim_inv_SetStartTime:
  assumes inv: "claim_inv ts0 s" and k: "k < length (calls s)"
    and c: "calls s ! k = SetStartTime i task"
  shows "claim_inv ts0
           \<lparr>mem = (mem s)\<lparr>tasks := (tasks (mem s))[i := (tasks (mem s) ! i)\<lparr>StartTime := now\<rparr>]\<rparr>,
            tasksMutex = tasksMutex s, calls = (calls s)[k := Encode i task]\<rparr>"
proof -
  from claim_inv_local [OF inv k] c
  have l: "i < length ts0" "task = ts0 ! i" "Status (ts0 ! i) = ''pending''"
    "Status (tasks (mem s) ! i) \<noteq> ''pending''"
    "\<forall>j<length ts0. j < i \<longrightarrow> Status (tasks (mem s) ! j) \<noteq> ''pending''" by simp_all
  from inv have len: "length (tasks (mem s)) = length ts0" by (simp add: claim_inv_def)
  show ?thesis using inv k
  proof (rule claim_inv_write)
    show "active (calls s ! k)" by (simp add: c)
    show "active (Encode i task)" by simp
    show "selected (calls s ! k) = Some i" by (simp add: c)
    show "selected (Encode i task) = Some i" by simp
    show "length ((tasks (mem s))[i := (tasks (mem s) ! i)\<lparr>StartTime := now\<rparr>]) = length ts0"
      using len by simp
    show "\<forall>j<length ts0. j \<noteq> i \<longrightarrow>
            (tasks (mem s))[i := (tasks (mem s) ! i)\<lparr>StartTime := now\<rparr>] ! j = tasks (mem s) ! j"
      by simp
    show "Status ((tasks (mem s))[i := (tasks (mem s) ! i)\<lparr>StartTime := now\<rparr>] ! i) \<noteq> ''pending''"
      using l(1) l(4) len by simp
    show "local_ok ts0 ((tasks (mem s))[i := (tasks (mem s) ! i)\<lparr>StartTime := now\<rparr>])
            (Encode i task)"
      using l len by simp
  qed
qed

lemma claim_inv_step:
  assumes inv: "claim_inv ts0 s" and st: "sys_step k now s = Some s'"
  shows "claim_inv ts0 s'"
proof -
  from sys_step_SomeD [OF st] obtain c g locked where k: "k < length (calls s)"
    and t: "thread_step now (calls s ! k) (mem s) (tasksMutex s) = Some (c, g, locked)"
    and s': "s' = \<lparr>mem = g, tasksMutex = locked, calls = (calls s)[k := c]\<rparr>"
    by blast
  from inv have len: "length (tasks (mem s)) = length ts0" by (simp add: claim_inv_def)
  show ?thesis
  proof (cases "calls s ! k")
    case Idle
    from t Idle have free: "\<not> tasksMutex s" and e: "c = Loop 0 (length (tasks (mem s)))"
      "g = mem s" "locked = True"
      by (auto split: if_splits)
    have "claim_inv ts0 \<lparr>mem = mem s, tasksMutex = True, calls = (calls s)[k := c]\<rparr>"
      using inv k free
    proof (rule claim_inv_lock)
      show "active c" by (simp add: e)
      show "selected c = selected (calls s ! k)" by (simp add: e Idle)
      show "local_ok ts0 (tasks (mem s)) c" by (simp add: e len)
    qed
    then show ?thesis by (simp add: s' e)
  next
    case (Loop i n)
    from t Loop have e: "c = (if i < n then Test i n (tasks (mem s) ! i) else ReplyNotFound)"
      "g = mem s" "locked = tasksMutex s" by simp_all
    from claim_inv_Loop [OF inv k Loop] show ?thesis by (simp only: s' e)
  next
    case (Test i n task)
    from t Test have e: "c = (if Status task = ''pending'' then SetStatus i task else Loop (Suc i) n)"
      "g = mem s" "locked = tasksMutex s" by simp_all
    from claim_inv_Test [OF inv k Test] show ?thesis by (simp only: s' e)
  next
    case (SetStatus i task)
    from t SetStatus have e: "c = SetStartTime i task"
      "g = (mem s)\<lparr>tasks := (tasks (mem s))[i := (tasks (mem s) ! i)\<lparr>Status := ''in_progress''\<rparr>]\<rparr>"
      "locked = tasksMutex s" by simp_all
    from claim_inv_SetStatus [OF inv k SetStatus] show ?thesis by (simp only: s' e)
  next
    case (SetStartTime i task)
    from t SetStartTime have e: "c = Encode i task"
      "g = (mem s)\<lparr>tasks := (tasks (mem s))[i := (tasks (mem s) ! i)\<lparr>StartTime := now\<rparr>]\<rparr>"
      "locked = tasksMutex s" by simp_all
    from claim_inv_SetStartTime [OF inv k SetStartTime, of now] show ?thesis by (simp only: s' e)
  next
    case (Encode i task)
    from t Encode have e: "c = Served i task" "g = mem s" "locked = False" by simp_all
    have "claim_inv ts0 \<lparr>mem = mem s, tasksMutex = False, calls = (calls s)[k := Served i task]\<rparr>"
      using inv k
    proof (rule claim_inv_unlock)
      show "active (calls s ! k)" by (simp add: Encode)
      show "\<not> active (Served i task)" by simp
      show "selected (Served i task) = selected (calls s ! k)" by (simp add: Encode)
      show "local_ok ts0 (tasks (mem s)) (Served i task)"
        using claim_inv_local [OF inv k] Encode by simp
    qed
    then show ?thesis by (simp only: s' e)
  next
    case ReplyNotFound
    from t ReplyNotFound have e: "c = Unserved" "g = mem s" "locked = False" by simp_all
    have "claim_inv ts0 \<lparr>mem = mem s, tasksMutex = False, calls = (calls s)[k := Unserved]\<rparr>"
      using inv k
    proof (rule claim_inv_unlock)
      show "active (calls s ! k)" by (simp add: ReplyNotFound)
      show "\<not> active Unserved" by simp
      show "selected Unserved = selected (calls s ! k)" by (simp add: ReplyNotFound)
      show "local_ok ts0 (tasks (mem s)) Unserved"
        using claim_inv_local [OF inv k] ReplyNotFound by simp
    qed
    then show ?thesis by (simp only: s' e)
  next
    case (Served i task)
    with t show ?thesis by simp
  next
    case Unserved
    with t show ?thesis by simp
  qed
qed

lemma claim_inv_exec:
  "claim_inv ts0 s \<Longrightarrow> exec sch s = Some s' \<Longrightarrow> claim_inv ts0 s'"
proof (induction sch arbitrary: s)
  case Nil
  then show ?case by simp
next
  case (Cons a sch)
  obtain k now where a: "a = (k, now)" by (cases a)
  from Cons.prems(2) a obtain s1 where s1: "sys_step k now s = Some s1" "exec sch s1 = Some s'"
    by (auto split: option.splits)
  have "claim_inv ts0 s1" using Cons.prems(1) s1(1) by (rule claim_inv_step)
  then show ?case using s1(2) by (rule Cons.IH)
qed

lemma claim_inv_initial:
  "claim_inv (tasks g) \<lparr>mem = g, tasksMutex = False, calls = replicate n Idle\<rparr>"
  by (simp add: claim_inv_def some_call_def at_most_one_def)

lemma sys_step_length: "sys_step k now s = Some s' \<Longrightarrow> length (calls s') = length (calls s)"
  using sys_step_SomeD [of k now s s'] by auto

lemma exec_length: "exec sch s = Some s' \<Longrightarrow> length (calls s') = length (calls s)"
proof (induction sch arbitrary: s)
  case Nil
  then show ?case by simp
next
  case (Cons a sch)
  obtain k now where a: "a = (k, now)" by (cases a)
  from Cons.prems a obtain s1 where s1: "sys_step k now s = Some s1" "exec sch s1 = Some s'"
    by (auto split: option.splits)
  from Cons.IH [OF s1(2)] sys_step_length [OF s1(1)] show ?case by simp
qed

section \<open>Interleaved claims: results, progress and the sequential handler\<close>

lemma claim_inv_selected_once:
  assumes inv: "claim_inv ts0 s" and k: "k < length (calls s)" and j: "j < length (calls s)"
    and sk: "selected (calls s ! k) = Some i" and sj: "selected (calls s ! j) = Some i"
  shows "k = j"
proof -
  from inv have "at_most_one (\<lambda>c. selected c = Some i) (calls s)" by (simp add: claim_inv_def)
  with k j sk sj show ?thesis by (simp add: at_most_one_def)
qed

lemma claim_inv_Served:
  assumes inv: "claim_inv ts0 s" and k: "k < length (calls s)" and c: "calls s ! k = Served i t"
  shows "i < length ts0 \<and> t = ts0 ! i \<and> Status t = ''pending'' \<and>
         Status (tasks (mem s) ! i) \<noteq> ''pending''"
  using claim_inv_local [OF inv k] c by simp

lemma claim_inv_served_ids:
  assumes inv: "claim_inv ts0 s" and d: "distinct (map ID ts0)"
    and k: "k < length (calls s)" and j: "j < length (calls s)" and ne: "k \<noteq> j"
    and ck: "calls s ! k = Served i t" and cj: "calls s ! j = Served i' t'"
  shows "ID t \<noteq> ID t'"
proof
  assume e: "ID t = ID t'"
  from claim_inv_Served [OF inv k ck] have a: "i < length ts0" "t = ts0 ! i" by blast+
  from claim_inv_Served [OF inv j cj] have b: "i' < length ts0" "t' = ts0 ! i'" by blast+
  from e a b have m: "map ID ts0 ! i = map ID ts0 ! i'" by simp
  have "(map ID ts0 ! i = map ID ts0 ! i') = (i = i')"
    using d by (rule nth_eq_iff_index_eq) (simp_all add: a(1) b(1))
  with m have "i = i'" by simp
  with ck cj have "selected (calls s ! k) = Some i" "selected (calls s ! j) = Some i" by simp_all
  with inv k j have "k = j" by (rule claim_inv_selected_once)
  with ne show False by simp
qed

lemma returned_cases: "reply c \<noteq> None \<Longrightarrow> (\<exists>i t. c = Served i t) \<or> c = Unserved"
  by (cases c) simp_all

lemma claim_inv_all_returned:
  assumes op: "one_pending ts0 p" and inv: "claim_inv ts0 s"
    and fin: "\<forall>k<length (calls s). reply (calls s ! k) \<noteq> None" and n: "0 < length (calls s)"
  shows "\<exists>k<length (calls s). calls s ! k = Served p (ts0 ! p) \<and>
           (\<forall>j<length (calls s). j \<noteq> k \<longrightarrow> calls s ! j = Unserved)"
proof -
  from op have pl: "p < length ts0" and pp: "Status (ts0 ! p) = ''pending''"
    and only: "\<forall>j<length ts0. j \<noteq> p \<longrightarrow> Status (ts0 ! j) \<noteq> ''pending''"
    by (simp_all add: one_pending_def)
  have served_p: "\<And>k i t. k < length (calls s) \<Longrightarrow> calls s ! k = Served i t \<Longrightarrow> i = p \<and> t = ts0 ! p"
  proof -
    fix k i t assume k: "k < length (calls s)" and c: "calls s ! k = Served i t"
    from claim_inv_Served [OF inv k c] have a: "i < length ts0" "t = ts0 ! i" "Status t = ''pending''"
      by blast+
    with only have "i = p" by auto
    with a(2) show "i = p \<and> t = ts0 ! p" by simp
  qed
  have sel: "some_call (\<lambda>c. selected c = Some p) (calls s)"
  proof (rule ccontr)
    assume ns: "\<not> some_call (\<lambda>c. selected c = Some p) (calls s)"
    from fin n have "reply (calls s ! 0) \<noteq> None" by simp
    then have "(\<exists>i t. calls s ! 0 = Served i t) \<or> calls s ! 0 = Unserved" by (rule returned_cases)
    then show False
    proof
      assume "\<exists>i t. calls s ! 0 = Served i t"
      then obtain i t where c: "calls s ! 0 = Served i t" by blast
      with served_p [OF n c] have "selected (calls s ! 0) = Some p" by simp
      with n ns show False by (auto simp: some_call_def)
    next
      assume c: "calls s ! 0 = Unserved"
      with claim_inv_local [OF inv n] pl have "Status (tasks (mem s) ! p) \<noteq> ''pending''" by simp
      with inv pl pp have "some_call (\<lambda>c. selected c = Some p) (calls s)" by (simp add: claim_inv_def)
      with ns show False by simp
    qed
  qed
  then obtain k where k: "k < length (calls s)" "selected (calls s ! k) = Some p"
    by (auto simp: some_call_def)
  from fin k(1) have "(\<exists>i t. calls s ! k = Served i t) \<or> calls s ! k = Unserved"
    by (intro returned_cases) simp
  with k(2) obtain i t where c: "calls s ! k = Served i t" by auto
  with served_p [OF k(1) c] have ck: "calls s ! k = Served p (ts0 ! p)" by simp
  have "\<forall>j<length (calls s). j \<noteq> k \<longrightarrow> calls s ! j = Unserved"
  proof (intro allI impI)
    fix j assume j: "j < length (calls s)" "j \<noteq> k"
    from fin j(1) have "(\<exists>i t. calls s ! j = Served i t) \<or> calls s ! j = Unserved"
      by (intro returned_cases) simp
    then show "calls s ! j = Unserved"
    proof
      assume "\<exists>i t. calls s ! j = Served i t"
      then obtain i' t' where cj: "calls s ! j = Served i' t'" by blast
      with served_p [OF j(1) cj] have "selected (calls s ! j) = Some p" by simp
      with inv j(1) k(1) have "j = k" using k(2) by (rule claim_inv_selected_once)
      with j(2) show ?thesis by simp
    qed
  qed
  with k(1) ck show ?thesis by blast
qed

lemma active_can_step: "active c \<Longrightarrow> thread_step now c g locked \<noteq> None"
  by (cases c) simp_all

lemma idle_or_returned: "\<not> active c \<Longrightarrow> c = Idle \<or> reply c \<noteq> None"
  by (cases c) simp_all

lemma sys_step_enabled:
  "k < length (calls s) \<Longrightarrow> thread_step now (calls s ! k) (mem s) (tasksMutex s) \<noteq> None \<Longrightarrow>
   sys_step k now s \<noteq> None"
  by (auto simp: sys_step_def split: option.splits)

lemma claim_inv_no_deadlock:
  assumes inv: "claim_inv ts0 s"
  shows "(\<forall>k<length (calls s). reply (calls s ! k) \<noteq> None) \<or>
         (\<exists>k<length (calls s). sys_step k now s \<noteq> None)"
proof (cases "tasksMutex s")
  case True
  with inv have "some_call active (calls s)" by (simp add: claim_inv_def)
  then obtain k where k: "k < length (calls s)" "active (calls s ! k)"
    by (auto simp: some_call_def)
  from k(2) have "thread_step now (calls s ! k) (mem s) (tasksMutex s) \<noteq> None"
    by (rule active_can_step)
  with k(1) have "sys_step k now s \<noteq> None" by (rule sys_step_enabled)
  with k(1) show ?thesis by blast
next
  case False
  with inv have na: "\<not> some_call active (calls s)" by (simp add: claim_inv_def)
  show ?thesis
  proof (cases "\<forall>k<length (calls s). reply (calls s ! k) \<noteq> None")
    case True
    then show ?thesis by (rule disjI1)
  next
    case nd: False
    then obtain k where k: "k < length (calls s)" "reply (calls s ! k) = None" by blast
    from na k(1) have "\<not> active (calls s ! k)" by (auto simp: some_call_def)
    with k(2) have "calls s ! k = Idle" using idle_or_returned by blast
    with False have "thread_step now (calls s ! k) (mem s) (tasksMutex s) \<noteq> None" by simp
    with k(1) have "sys_step k now s \<noteq> None" by (rule sys_step_enabled)
    with k(1) show ?thesis by blast
  qed
qed

lemma thread_step_remaining:
  assumes "local_ok ts0 (tasks g) c" and "length (tasks g) = length ts0"
    and "thread_step now c g locked = Some (c', g', locked')"
  shows "remaining (length ts0) c' < remaining (length ts0) c"
  using assms by (cases c) (auto split: if_splits)

lemma sum_list_update_less:
  "k < length cs \<Longrightarrow> f c < f (cs ! k) \<Longrightarrow>
   Suc (sum_list (map f (cs[k := c]))) \<le> sum_list (map f cs)"
proof (induction cs arbitrary: k)
  case Nil
  then show ?case by simp
next
  case (Cons x cs)
  show ?case
  proof (cases k)
    case 0
    with Cons.prems show ?thesis by simp
  next
    case (Suc k')
    with Cons.prems have "Suc (sum_list (map f (cs[k' := c]))) \<le> sum_list (map f cs)"
      by (intro Cons.IH) simp_all
    with Suc show ?thesis by simp
  qed
qed

lemma sys_step_remaining:
  assumes inv: "claim_inv ts0 s" and st: "sys_step k now s = Some s'"
  shows "Suc (sum_list (map (remaining (length ts0)) (calls s'))) \<le>
         sum_list (map (remaining (length ts0)) (calls s))"
proof -
  from sys_step_SomeD [OF st] obtain c g locked where k: "k < length (calls s)"
    and t: "thread_step now (calls s ! k) (mem s) (tasksMutex s) = Some (c, g, locked)"
    and s': "s' = \<lparr>mem = g, tasksMutex = locked, calls = (calls s)[k := c]\<rparr>"
    by blast
  from inv have len: "length (tasks (mem s)) = length ts0" by (simp add: claim_inv_def)
  have "remaining (length ts0) c < remaining (length ts0) (calls s ! k)"
    using claim_inv_local [OF inv k] len t by (rule thread_step_remaining)
  with k have "Suc (sum_list (map (remaining (length ts0)) ((calls s)[k := c]))) \<le>
         sum_list (map (remaining (length ts0)) (calls s))"
    by (rule sum_list_update_less)
  then show ?thesis by (simp add: s')
qed

lemma exec_remaining:
  "claim_inv ts0 s \<Longrightarrow> exec sch s = Some s' \<Longrightarrow>
   length sch + sum_list (map (remaining (length ts0)) (calls s')) \<le>
   sum_list (map (remaining (length ts0)) (calls s))"
proof (induction sch arbitrary: s)
  case Nil
  then show ?case by simp
next
  case (Cons a sch)
  obtain k now where a: "a = (k, now)" by (cases a)
  from Cons.prems(2) a obtain s1 where s1: "sys_step k now s = Some s1" "exec sch s1 = Some s'"
    by (auto split: option.splits)
  have i1: "claim_inv ts0 s1" using Cons.prems(1) s1(1) by (rule claim_inv_step)
  have "length sch + sum_list (map (remaining (length ts0)) (calls s')) \<le>
        sum_list (map (remaining (length ts0)) (calls s1))"
    using i1 s1(2) by (rule Cons.IH)
  moreover have "Suc (sum_list (map (remaining (length ts0)) (calls s1))) \<le>
         sum_list (map (remaining (length ts0)) (calls s))"
    using Cons.prems(1) s1(1) by (rule sys_step_remaining)
  ultimately show ?case by simp
qed

lemma registry_inv_distinct_ids:
  assumes "registry_inv g"
  shows "distinct (map ID (tasks g))"
proof -
  have "\<forall>i<length (tasks g). \<forall>j<length (tasks g). i \<noteq> j \<longrightarrow> ID (tasks g ! i) \<noteq> ID (tasks g ! j)"
  proof (intro allI impI)
    fix i j assume i: "i < length (tasks g)" and j: "j < length (tasks g)" and ne: "i \<noteq> j"
    from assms i have "sint (ID (tasks g ! i)) = int i + 1" by (simp add: registry_inv_def)
    moreover from assms j have "sint (ID (tasks g ! j)) = int j + 1" by (simp add: registry_inv_def)
    ultimately show "ID (tasks g ! i) \<noteq> ID (tasks g ! j)" using ne by auto
  qed
  then show ?thesis by (simp add: distinct_conv_nth)
qed

lemma reachable_distinct_ids: "distinct (map ID (tasks (snd (run rqs init))))"
  using registry_inv_reachable by (rule registry_inv_distinct_ids)

lemma solo_loop:
  "drop i (tasks g) = xs \<Longrightarrow>
   \<exists>sch c. exec sch \<lparr>mem = g, tasksMutex = True, calls = [Loop i (length (tasks g))]\<rparr> =
       Some \<lparr>mem = g\<lparr>tasks := snd (getTaskForExecution_loop now (tasks g) i xs)\<rparr>,
             tasksMutex = False, calls = [c]\<rparr> \<and>
     reply c = Some (fst (getTaskForExecution_loop now (tasks g) i xs))"
proof (induction xs arbitrary: i)
  case Nil
  then have ge: "\<not> i < length (tasks g)" by simp
  have "exec [(0, now), (0, now)] \<lparr>mem = g, tasksMutex = True, calls = [Loop i (length (tasks g))]\<rparr> =
     Some \<lparr>mem = g, tasksMutex = False, calls = [Unserved]\<rparr>"
    using ge by (simp add: sys_step_def)
  then have "exec [(0, now), (0, now)] \<lparr>mem = g, tasksMutex = True, calls = [Loop i (length (tasks g))]\<rparr> =
       Some \<lparr>mem = g\<lparr>tasks := snd (getTaskForExecution_loop now (tasks g) i [])\<rparr>,
             tasksMutex = False, calls = [Unserved]\<rparr> \<and>
     reply Unserved = Some (fst (getTaskForExecution_loop now (tasks g) i []))"
    by simp
  then show ?case by blast
next
  case (Cons x xs)
  note dd = drop_eq_Cons_nth [OF Cons.prems]
  from dd have d1: "i < length (tasks g)" by (rule conjunct1)
  from dd have d2: "tasks g ! i = x" by simp
  from dd have d3: "drop (Suc i) (tasks g) = xs" by simp
  show ?case
  proof (cases "Status x = ''pending''")
    case True
    have "exec [(0, now), (0, now), (0, now), (0, now), (0, now)]
            \<lparr>mem = g, tasksMutex = True, calls = [Loop i (length (tasks g))]\<rparr> =
          Some \<lparr>mem = g\<lparr>tasks := snd (getTaskForExecution_loop now (tasks g) i (x # xs))\<rparr>,
                tasksMutex = False, calls = [Served i x]\<rparr> \<and>
          reply (Served i x) = Some (fst (getTaskForExecution_loop now (tasks g) i (x # xs)))"
      using True d1 d2 by (simp add: sys_step_def Let_def)
    then show ?thesis by blast
  next
    case False
    from Cons.IH [OF d3] obtain sch c where sch:
      "exec sch \<lparr>mem = g, tasksMutex = True, calls = [Loop (Suc i) (length (tasks g))]\<rparr> =
         Some \<lparr>mem = g\<lparr>tasks := snd (getTaskForExecution_loop now (tasks g) (Suc i) xs)\<rparr>,
               tasksMutex = False, calls = [c]\<rparr>"
      "reply c = Some (fst (getTaskForExecution_loop now (tasks g) (Suc i) xs))"
      by blast
    have "exec ((0, now) # (0, now) # sch)
            \<lparr>mem = g, tasksMutex = True, calls = [Loop i (length (tasks g))]\<rparr> =
          Some \<lparr>mem = g\<lparr>tasks := snd (getTaskForExecution_loop now (tasks g) i (x # xs))\<rparr>,
                tasksMutex = False, calls = [c]\<rparr> \<and>
          reply c = Some (fst (getTaskForExecution_loop now (tasks g) i (x # xs)))"
      using False d1 d2 sch by (simp add: sys_step_def)
    then show ?thesis by blast
  qed
qed

lemma solo_call_is_getTaskForExecution:
  "\<exists>sch c. exec sch \<lparr>mem = g, tasksMutex = False, calls = [Idle]\<rparr> =
       Some \<lparr>mem = snd (getTaskForExecution now g), tasksMutex = False, calls = [c]\<rparr> \<and>
     reply c = Some (fst (getTaskForExecution now g))"
proof -
  have "drop 0 (tasks g) = tasks g" by simp
  from solo_loop [OF this, of now] obtain sch c where sch:
    "exec sch \<lparr>mem = g, tasksMutex = True, calls = [Loop 0 (length (tasks g))]\<rparr> =
       Some \<lparr>mem = g\<lparr>tasks := snd (getTaskForExecution_loop now (tasks g) 0 (tasks g))\<rparr>,
             tasksMutex = False, calls = [c]\<rparr>"
    "reply c = Some (fst (getTaskForExecution_loop now (tasks g) 0 (tasks g)))"
    by blast
  have "exec ((0, now) # sch) \<lparr>mem = g, tasksMutex = False, calls = [Idle]\<rparr> =
       Some \<lparr>mem = snd (getTaskForExecution now g), tasksMutex = False, calls = [c]\<rparr> \<and>
     reply c = Some (fst (getTaskForExecution now g))"
    using sch by (simp add: sys_step_def fst_getTaskForExecution snd_getTaskForExecution)
  then show ?thesis by blast
qed

section \<open>Claiming the next task\<close>

text \<open>
  C1. Claimed property: the Task that claim_next returns is a copy of the updated record,
  with status \<open>in_progress\<close> and \<open>start_time\<close> the time of the claim. The handler encodes
  the loop variable \<open>task\<close>, which was copied from \<open>tasks[i]\<close> before the two assignments
  to \<open>tasks[i]\<close>. In the registry holding the one task created from \<open>1+1\<close>, a claim at time
  \<open>5\<close> stores \<open>in_progress\<close> and \<open>5\<close> but answers with status \<open>pending\<close> and the zero time.
\<close>

theorem getTaskForExecution_answers_with_copy_read_before_update:
  "getTaskForExecution 5 (snd (addTask (Some (TaskRequest ''1+1'')) init)) =
     (JSON_Task \<lparr>ID = 1, Expression = ''1+1'', Status = ''pending'', Result = 0, StartTime = 0\<rparr>,
      init\<lparr>tasks := [\<lparr>ID = 1, Expression = ''1+1'', Status = ''in_progress'', Result = 0,
                        StartTime = 5\<rparr>],
           taskIDCounter := 1\<rparr>)"
  by (simp add: getTaskForExecution_def addTask_def init_def MaxInt_def)

text \<open>
  C2. In every state, \<open>getTaskForExecution\<close> answers NotFound exactly when no stored task is
  pending, and then leaves the state as it is; and when \<open>i\<close> is the first index (in the
  order of creation) whose task is pending, the new state is the old one with the task at
  \<open>i\<close> given status \<open>in_progress\<close> and start time \<open>now\<close>, nothing else changed.
\<close>

theorem getTaskForExecution_selects_first_pending:
  "(fst (getTaskForExecution now g) = NotFound \<longleftrightarrow> (\<forall>t\<in>set (tasks g). Status t \<noteq> ''pending'')) \<and>
   ((\<forall>t\<in>set (tasks g). Status t \<noteq> ''pending'') \<longrightarrow> snd (getTaskForExecution now g) = g) \<and>
   (i < length (tasks g) \<and> Status (tasks g ! i) = ''pending'' \<and>
        (\<forall>j<i. Status (tasks g ! j) \<noteq> ''pending'') \<longrightarrow>
        snd (getTaskForExecution now g) =
          g\<lparr>tasks := (tasks g)[i := (tasks g ! i)\<lparr>Status := ''in_progress'', StartTime := now\<rparr>]\<rparr>)"
proof (intro conjI impI)
  show "fst (getTaskForExecution now g) = NotFound \<longleftrightarrow> (\<forall>t\<in>set (tasks g). Status t \<noteq> ''pending'')"
    by (simp only: fst_getTaskForExecution getTaskForExecution_loop_NotFound_iff)
next
  assume "\<forall>t\<in>set (tasks g). Status t \<noteq> ''pending''"
  then show "snd (getTaskForExecution now g) = g"
    by (simp add: snd_getTaskForExecution getTaskForExecution_loop_none)
next
  assume h: "i < length (tasks g) \<and> Status (tasks g ! i) = ''pending'' \<and>
             (\<forall>j<i. Status (tasks g ! j) \<noteq> ''pending'')"
  have "getTaskForExecution_loop now (tasks g) 0 (tasks g) =
          (JSON_Task (tasks g ! i),
           (tasks g)[0 + i := (tasks g ! (0 + i))\<lparr>Status := ''in_progress'', StartTime := now\<rparr>])"
    using h by (intro getTaskForExecution_loop_found) simp_all
  then show "snd (getTaskForExecution now g) =
          g\<lparr>tasks := (tasks g)[i := (tasks g ! i)\<lparr>Status := ''in_progress'', StartTime := now\<rparr>]\<rparr>"
    by (simp add: snd_getTaskForExecution)
qed

theorem getTaskForExecution_selects_first_pending_witness:
  "fst (getTaskForExecution 7
     \<lparr>tasks = [\<lparr>ID = 1, Expression = ''2*3'', Status = ''completed'', Result = 0, StartTime = 3\<rparr>,
               \<lparr>ID = 2, Expression = ''1+1'', Status = ''pending'', Result = 0, StartTime = 0\<rparr>,
               \<lparr>ID = 3, Expression = ''4/2'', Status = ''pending'', Result = 0, StartTime = 0\<rparr>],
      operations = [], taskIDCounter = 3\<rparr>) \<noteq> NotFound \<and>
   snd (getTaskForExecution 7
     \<lparr>tasks = [\<lparr>ID = 1, Expression = ''2*3'', Status = ''completed'', Result = 0, StartTime = 3\<rparr>,
               \<lparr>ID = 2, Expression = ''1+1'', Status = ''pending'', Result = 0, StartTime = 0\<rparr>,
               \<lparr>ID = 3, Expression = ''4/2'', Status = ''pending'', Result = 0, StartTime = 0\<rparr>],
      operations = [], taskIDCounter = 3\<rparr>) =
     \<lparr>tasks = [\<lparr>ID = 1, Expression = ''2*3'', Status = ''completed'', Result = 0, StartTime = 3\<rparr>,
               \<lparr>ID = 2, Expression = ''1+1'', Status = ''in_progress'', Result = 0, StartTime = 7\<rparr>,
               \<lparr>ID = 3, Expression = ''4/2'', Status = ''pending'', Result = 0, StartTime = 0\<rparr>],
      operations = [], taskIDCounter = 3\<rparr> \<and>
   getTaskForExecution 9
     \<lparr>tasks = [\<lparr>ID = 1, Expression = ''2*3'', Status = ''completed'', Result = 0, StartTime = 3\<rparr>],
      operations = [], taskIDCounter = 1\<rparr> =
   (NotFound,
     \<lparr>tasks = [\<lparr>ID = 1, Expression = ''2*3'', Status = ''completed'', Result = 0, StartTime = 3\<rparr>],
      operations = [], taskIDCounter = 1\<rparr>)"
  using getTaskForExecution_selects_first_pending [of 7
     "\<lparr>tasks = [\<lparr>ID = 1, Expression = ''2*3'', Status = ''completed'', Result = 0, StartTime = 3\<rparr>,
               \<lparr>ID = 2, Expression = ''1+1'', Status = ''pending'', Result = 0, StartTime = 0\<rparr>,
               \<lparr>ID = 3, Expression = ''4/2'', Status = ''pending'', Result = 0, StartTime = 0\<rparr>],
      operations = [], taskIDCounter = 3\<rparr>" 1]
    getTaskForExecution_selects_first_pending [of 9
     "\<lparr>tasks = [\<lparr>ID = 1, Expression = ''2*3'', Status = ''completed'', Result = 0, StartTime = 3\<rparr>],
      operations = [], taskIDCounter = 1\<rparr>" 0]
  by (simp add: prod_eq_iff)

section \<open>Concurrent claims\<close>

text \<open>
  C6. Let \<open>n\<close> calls of \<open>getTaskForExecution\<close> run concurrently on any list of tasks,
  interleaved statement by statement in any order the mutex allows. In every state of
  every such run no two calls have selected the same task (the same index of the slice);
  a call that returned a task returned one that was pending when the run began and is no
  longer pending in the store; and when the stored ids are pairwise distinct (as they are
  in every state the registry reaches, \<open>reachable_distinct_ids\<close>), the tasks returned to
  two different calls have different ids: each task is handed to at most one caller.
  When index \<open>p\<close> holds the only pending task, \<open>n > 0\<close> and all calls have returned,
  exactly one call was answered with that task and every other one with NotFound. The
  calls do return: unless all have, some call can move (no deadlock), and no run has more
  than \<open>n * (2 * length tasks + 6)\<close> steps.
\<close>

theorem concurrent_claims_hand_out_each_task_once:
  assumes "exec sch \<lparr>mem = g, tasksMutex = False, calls = replicate n Idle\<rparr> = Some s"
  shows "(\<forall>k<n. \<forall>j<n. \<forall>i. selected (calls s ! k) = Some i \<and> selected (calls s ! j) = Some i
            \<longrightarrow> k = j) \<and>
         (\<forall>k<n. \<forall>i t. calls s ! k = Served i t \<longrightarrow>
            i < length (tasks g) \<and> t = tasks g ! i \<and> Status t = ''pending'' \<and>
            Status (tasks (mem s) ! i) \<noteq> ''pending'') \<and>
         (distinct (map ID (tasks g)) \<longrightarrow>
            (\<forall>k<n. \<forall>j<n. \<forall>i t i' t'. calls s ! k = Served i t \<and> calls s ! j = Served i' t' \<and> k \<noteq> j
               \<longrightarrow> ID t \<noteq> ID t')) \<and>
         (one_pending (tasks g) p \<and> 0 < n \<and> (\<forall>k<n. reply (calls s ! k) \<noteq> None) \<longrightarrow>
            (\<exists>k<n. calls s ! k = Served p (tasks g ! p) \<and>
                    reply (calls s ! k) = Some (JSON_Task (tasks g ! p)) \<and>
                    (\<forall>j<n. j \<noteq> k \<longrightarrow> calls s ! j = Unserved \<and> reply (calls s ! j) = Some NotFound))) \<and>
         ((\<forall>k<n. reply (calls s ! k) \<noteq> None) \<or> (\<exists>k<n. sys_step k now s \<noteq> None)) \<and>
         length sch \<le> n * (2 * length (tasks g) + 6)"
proof -
  let ?s0 = "\<lparr>mem = g, tasksMutex = False, calls = replicate n Idle\<rparr>"
  have i0: "claim_inv (tasks g) ?s0" by (rule claim_inv_initial)
  have inv: "claim_inv (tasks g) s" using i0 assms by (rule claim_inv_exec)
  have len: "length (calls s) = n" using exec_length [OF assms] by simp
  have c1: "\<forall>k<n. \<forall>j<n. \<forall>i. selected (calls s ! k) = Some i \<and> selected (calls s ! j) = Some i
            \<longrightarrow> k = j"
    using claim_inv_selected_once [OF inv] len by blast
  have c2: "\<forall>k<n. \<forall>i t. calls s ! k = Served i t \<longrightarrow>
            i < length (tasks g) \<and> t = tasks g ! i \<and> Status t = ''pending'' \<and>
            Status (tasks (mem s) ! i) \<noteq> ''pending''"
    using claim_inv_Served [OF inv] len by blast
  have c3: "distinct (map ID (tasks g)) \<longrightarrow>
            (\<forall>k<n. \<forall>j<n. \<forall>i t i' t'. calls s ! k = Served i t \<and> calls s ! j = Served i' t' \<and> k \<noteq> j
               \<longrightarrow> ID t \<noteq> ID t')"
    using claim_inv_served_ids [OF inv] len by blast
  have c4: "one_pending (tasks g) p \<and> 0 < n \<and> (\<forall>k<n. reply (calls s ! k) \<noteq> None) \<longrightarrow>
            (\<exists>k<n. calls s ! k = Served p (tasks g ! p) \<and>
                    reply (calls s ! k) = Some (JSON_Task (tasks g ! p)) \<and>
                    (\<forall>j<n. j \<noteq> k \<longrightarrow> calls s ! j = Unserved \<and> reply (calls s ! j) = Some NotFound))"
  proof
    assume h: "one_pending (tasks g) p \<and> 0 < n \<and> (\<forall>k<n. reply (calls s ! k) \<noteq> None)"
    then have "\<exists>k<length (calls s). calls s ! k = Served p (tasks g ! p) \<and>
           (\<forall>j<length (calls s). j \<noteq> k \<longrightarrow> calls s ! j = Unserved)"
      using inv len by (intro claim_inv_all_returned) simp_all
    then obtain k where k: "k < n" "calls s ! k = Served p (tasks g ! p)"
      "\<forall>j<n. j \<noteq> k \<longrightarrow> calls s ! j = Unserved"
      using len by auto
    from k(2) have "reply (calls s ! k) = Some (JSON_Task (tasks g ! p))" by simp
    moreover from k(3) have "\<forall>j<n. j \<noteq> k \<longrightarrow> calls s ! j = Unserved \<and> reply (calls s ! j) = Some NotFound"
      by simp
    ultimately show "\<exists>k<n. calls s ! k = Served p (tasks g ! p) \<and>
                    reply (calls s ! k) = Some (JSON_Task (tasks g ! p)) \<and>
                    (\<forall>j<n. j \<noteq> k \<longrightarrow> calls s ! j = Unserved \<and> reply (calls s ! j) = Some NotFound)"
      using k(1) k(2) by blast
  qed
  have c5: "(\<forall>k<n. reply (calls s ! k) \<noteq> None) \<or> (\<exists>k<n. sys_step k now s \<noteq> None)"
    using claim_inv_no_deadlock [OF inv, of now] len by simp
  have "length sch + sum_list (map (remaining (length (tasks g))) (calls s)) \<le>
        sum_list (map (remaining (length (tasks g))) (calls ?s0))"
    using i0 assms by (rule exec_remaining)
  then have c6: "length sch \<le> n * (2 * length (tasks g) + 6)"
    by (simp add: sum_list_replicate)
  from c1 c2 c3 c4 c5 c6 show ?thesis by (intro conjI)
qed

theorem concurrent_claims_hand_out_each_task_once_witness:
  "exec [(1, 7), (1, 7), (1, 7), (1, 7), (1, 7), (1, 7),
         (0, 8), (0, 8), (0, 8), (0, 8), (0, 8), (0, 8), (0, 8), (0, 8)]
     \<lparr>mem = \<lparr>tasks = [\<lparr>ID = 1, Expression = ''1+1'', Status = ''pending'', Result = 0, StartTime = 0\<rparr>,
                       \<lparr>ID = 2, Expression = ''2*2'', Status = ''pending'', Result = 0, StartTime = 0\<rparr>],
             operations = [], taskIDCounter = 2\<rparr>,
      tasksMutex = False, calls = replicate 2 Idle\<rparr> =
   Some \<lparr>mem = \<lparr>tasks = [\<lparr>ID = 1, Expression = ''1+1'', Status = ''in_progress'', Result = 0, StartTime = 7\<rparr>,
                           \<lparr>ID = 2, Expression = ''2*2'', Status = ''in_progress'', Result = 0, StartTime = 8\<rparr>],
                 operations = [], taskIDCounter = 2\<rparr>,
         tasksMutex = False,
         calls = [Served 1 \<lparr>ID = 2, Expression = ''2*2'', Status = ''pending'', Result = 0, StartTime = 0\<rparr>,
                  Served 0 \<lparr>ID = 1, Expression = ''1+1'', Status = ''pending'', Result = 0, StartTime = 0\<rparr>]\<rparr> \<and>
   (14 :: nat) \<le> 2 * (2 * 2 + 6) \<and>
   one_pending [\<lparr>ID = 1, Expression = ''1+1'', Status = ''pending'', Result = 0, StartTime = 0\<rparr>] 0 \<and>
   exec [(1, 7), (1, 7), (1, 7), (1, 7), (1, 7), (1, 7), (0, 8), (0, 8), (0, 8), (0, 8), (0, 8)]
     \<lparr>mem = \<lparr>tasks = [\<lparr>ID = 1, Expression = ''1+1'', Status = ''pending'', Result = 0, StartTime = 0\<rparr>],
             operations = [], taskIDCounter = 1\<rparr>,
      tasksMutex = False, calls = replicate 2 Idle\<rparr> =
   Some \<lparr>mem = \<lparr>tasks = [\<lparr>ID = 1, Expression = ''1+1'', Status = ''in_progress'', Result = 0, StartTime = 7\<rparr>],
                 operations = [], taskIDCounter = 1\<rparr>,
         tasksMutex = False,
         calls = [Unserved,
                  Served 0 \<lparr>ID = 1, Expression = ''1+1'', Status = ''pending'', Result = 0, StartTime = 0\<rparr>]\<rparr> \<and>
   (11 :: nat) \<le> 2 * (2 * 1 + 6)"
proof -
  have a: "exec [(1, 7), (1, 7), (1, 7), (1, 7), (1, 7), (1, 7),
         (0, 8), (0, 8), (0, 8), (0, 8), (0, 8), (0, 8), (0, 8), (0, 8)]
     \<lparr>mem = \<lparr>tasks = [\<lparr>ID = 1, Expression = ''1+1'', Status = ''pending'', Result = 0, StartTime = 0\<rparr>,
                       \<lparr>ID = 2, Expression = ''2*2'', Status = ''pending'', Result = 0, StartTime = 0\<rparr>],
             operations = [], taskIDCounter = 2\<rparr>,
      tasksMutex = False, calls = replicate 2 Idle\<rparr> =
   Some \<lparr>mem = \<lparr>tasks = [\<lparr>ID = 1, Expression = ''1+1'', Status = ''in_progress'', Result = 0, StartTime = 7\<rparr>,
                           \<lparr>ID = 2, Expression = ''2*2'', Status = ''in_progress'', Result = 0, StartTime = 8\<rparr>],
                 operations = [], taskIDCounter = 2\<rparr>,
         tasksMutex = False,
         calls = [Served 1 \<lparr>ID = 2, Expression = ''2*2'', Status = ''pending'', Result = 0, StartTime = 0\<rparr>,
                  Served 0 \<lparr>ID = 1, Expression = ''1+1'', Status = ''pending'', Result = 0, StartTime = 0\<rparr>]\<rparr>"
    by (simp add: sys_step_def numeral_2_eq_2)
  have b: "exec [(1, 7), (1, 7), (1, 7), (1, 7), (1, 7), (1, 7), (0, 8), (0, 8), (0, 8), (0, 8), (0, 8)]
     \<lparr>mem = \<lparr>tasks = [\<lparr>ID = 1, Expression = ''1+1'', Status = ''pending'', Result = 0, StartTime = 0\<rparr>],
             operations = [], taskIDCounter = 1\<rparr>,
      tasksMutex = False, calls = replicate 2 Idle\<rparr> =
   Some \<lparr>mem = \<lparr>tasks = [\<lparr>ID = 1, Expression = ''1+1'', Status = ''in_progress'', Result = 0, StartTime = 7\<rparr>],
                 operations = [], taskIDCounter = 1\<rparr>,
         tasksMutex = False,
         calls = [Unserved,
                  Served 0 \<lparr>ID = 1, Expression = ''1+1'', Status = ''pending'', Result = 0, StartTime = 0\<rparr>]\<rparr>"
    by (simp add: sys_step_def numeral_2_eq_2)
  have op: "one_pending [\<lparr>ID = 1, Expression = ''1+1'', Status = ''pending'', Result = 0, StartTime = 0\<rparr>] 0"
    by (simp add: one_pending_def)
  have la: "(14 :: nat) \<le> 2 * (2 * 2 + 6)"
    using concurrent_claims_hand_out_each_task_once [OF a, of 0 0] by simp
  have lb: "(11 :: nat) \<le> 2 * (2 * 1 + 6)"
    using concurrent_claims_hand_out_each_task_once [OF b, of 0 0] by simp
  from a b op la lb show ?thesis by (intro conjI)
qed

section \<open>Reporting a result\<close>

text \<open>
  C4. When no stored task has the id of the reported record, \<open>handleResult\<close> leaves the
  whole state as it is and still answers with the empty acknowledgement (204 No Content).
\<close>

theorem handleResult_unknown_id_is_noop:
  "\<forall>t\<in>set (tasks g). ID t \<noteq> ID task \<Longrightarrow> handleResult (Some task) g = (NoContent, g)"
  by (simp add: handleResult_def handleResult_loop_none)

theorem handleResult_unknown_id_is_noop_witness:
  "handleResult
     (Some \<lparr>ID = 9999, Expression = ''7*7'', Status = ''completed'', Result = 5, StartTime = 2\<rparr>)
     \<lparr>tasks = [\<lparr>ID = 1, Expression = ''1+1'', Status = ''in_progress'', Result = 0, StartTime = 4\<rparr>],
      operations = [], taskIDCounter = 1\<rparr> =
   (NoContent,
     \<lparr>tasks = [\<lparr>ID = 1, Expression = ''1+1'', Status = ''in_progress'', Result = 0, StartTime = 4\<rparr>],
      operations = [], taskIDCounter = 1\<rparr>)"
  using handleResult_unknown_id_is_noop [of
     "\<lparr>tasks = [\<lparr>ID = 1, Expression = ''1+1'', Status = ''in_progress'', Result = 0, StartTime = 4\<rparr>],
      operations = [], taskIDCounter = 1\<rparr>"
     "\<lparr>ID = 9999, Expression = ''7*7'', Status = ''completed'', Result = 5, StartTime = 2\<rparr>"]
  by simp

text \<open>
  C9. When some stored task has the id of the reported record, let \<open>i\<close> be the first index
  holding that id. \<open>handleResult\<close> answers 204 and the new state is the old one with the
  record at \<open>i\<close> replaced by the reported record in full: the list keeps its length and its
  order, every record at another index is the one that was there, and the id counter and
  the catalog are the old ones.
\<close>

theorem handleResult_replaces_only_the_match:
  assumes "i < length (tasks g)" and "ID (tasks g ! i) = ID task"
    and "\<forall>j<i. ID (tasks g ! j) \<noteq> ID task"
  shows "handleResult (Some task) g = (NoContent, g\<lparr>tasks := (tasks g)[i := task]\<rparr>) \<and>
         length (tasks (snd (handleResult (Some task) g))) = length (tasks g) \<and>
         tasks (snd (handleResult (Some task) g)) ! i = task \<and>
         (\<forall>j. j \<noteq> i \<longrightarrow> tasks (snd (handleResult (Some task) g)) ! j = tasks g ! j) \<and>
         taskIDCounter (snd (handleResult (Some task) g)) = taskIDCounter g \<and>
         operations (snd (handleResult (Some task) g)) = operations g"
proof -
  have "handleResult_loop task (tasks g) 0 (tasks g) = (tasks g)[0 + i := task]"
    using assms by (rule handleResult_loop_found)
  then have e: "handleResult (Some task) g = (NoContent, g\<lparr>tasks := (tasks g)[i := task]\<rparr>)"
    by (simp add: handleResult_def)
  show ?thesis using assms(1) by (simp add: e)
qed

theorem handleResult_replaces_only_the_match_witness:
  "handleResult
     (Some \<lparr>ID = 2, Expression = ''x'', Status = ''completed'', Result = 9, StartTime = 8\<rparr>)
     \<lparr>tasks = [\<lparr>ID = 1, Expression = ''2*3'', Status = ''pending'', Result = 0, StartTime = 0\<rparr>,
               \<lparr>ID = 2, Expression = ''1+1'', Status = ''in_progress'', Result = 0, StartTime = 4\<rparr>,
               \<lparr>ID = 3, Expression = ''4/2'', Status = ''pending'', Result = 0, StartTime = 0\<rparr>],
      operations = [], taskIDCounter = 3\<rparr> =
   (NoContent,
     \<lparr>tasks = [\<lparr>ID = 1, Expression = ''2*3'', Status = ''pending'', Result = 0, StartTime = 0\<rparr>,
               \<lparr>ID = 2, Expression = ''x'', Status = ''completed'', Result = 9, StartTime = 8\<rparr>,
               \<lparr>ID = 3, Expression = ''4/2'', Status = ''pending'', Result = 0, StartTime = 0\<rparr>],
      operations = [], taskIDCounter = 3\<rparr>)"
  using handleResult_replaces_only_the_match [of 1
     "\<lparr>tasks = [\<lparr>ID = 1, Expression = ''2*3'', Status = ''pending'', Result = 0, StartTime = 0\<rparr>,
               \<lparr>ID = 2, Expression = ''1+1'', Status = ''in_progress'', Result = 0, StartTime = 4\<rparr>,
               \<lparr>ID = 3, Expression = ''4/2'', Status = ''pending'', Result = 0, StartTime = 0\<rparr>],
      operations = [], taskIDCounter = 3\<rparr>"
     "\<lparr>ID = 2, Expression = ''x'', Status = ''completed'', Result = 9, StartTime = 8\<rparr>"]
  by simp

section \<open>Creating tasks\<close>

text \<open>
  C3. In every sequence of requests from the initial state, the ids returned by \<open>addTask\<close>
  are \<open>1, 2, 3, ...\<close> in the order of the calls (one per create that reaches the append,
  up to the capacity of the slice): they are strictly increasing, pairwise distinct and
  positive, so no id is handed out twice.
\<close>

theorem addTask_ids_strictly_increasing:
  "createdIDs (fst (run rqs init)) = map int [1 ..< Suc (min (length (filter isCreate rqs)) MaxInt)] \<and>
   sorted_wrt (<) (createdIDs (fst (run rqs init))) \<and>
   distinct (createdIDs (fst (run rqs init))) \<and>
   (\<forall>x\<in>set (createdIDs (fst (run rqs init))). 0 < x)"
proof -
  have e: "createdIDs (fst (run rqs init)) =
           map int [1 ..< Suc (min (length (filter isCreate rqs)) MaxInt)]"
    using createdIDs_run [OF registry_inv_init, of rqs] by (simp add: init_def del: upt_Suc)
  have "sorted_wrt (<) (map int [1 ..< Suc (min (length (filter isCreate rqs)) MaxInt)])"
    by (simp add: sorted_wrt_map del: upt_Suc)
  moreover have "distinct (map int [1 ..< Suc (min (length (filter isCreate rqs)) MaxInt)])"
    by (simp add: distinct_map del: upt_Suc)
  moreover have "\<forall>x\<in>set (map int [1 ..< Suc (min (length (filter isCreate rqs)) MaxInt)]). 0 < x"
    by (auto simp del: upt_Suc)
  ultimately show ?thesis by (simp only: e)
qed

theorem addTask_ids_strictly_increasing_witness:
  "createdIDs (fst (run [AddTask (Some (TaskRequest ''1+1'')), GetTaskForExecution 3, AddTask None,
                           AddTask (Some (TaskRequest ''2*2''))] init)) = [1, 2] \<and>
   sorted_wrt (<) [1, 2 :: int] \<and> distinct [1, 2 :: int] \<and> (0 :: int) < 1 \<and> (0 :: int) < 2"
  using addTask_ids_strictly_increasing [of "[AddTask (Some (TaskRequest ''1+1'')),
     GetTaskForExecution 3, AddTask None, AddTask (Some (TaskRequest ''2*2''))]"]
  by (simp add: MaxInt_def upt_rec del: run.simps upt_Suc)

text \<open>
  C7. In a state reached by any sequence of requests, when \<open>addTask\<close> with expression \<open>e\<close>
  returns the id \<open>i\<close>, \<open>getTaskStatus\<close> on the decimal rendering of \<open>i\<close> in the state that
  \<open>addTask\<close> left answers with the task of id \<open>i\<close>, expression \<open>e\<close>, status \<open>pending\<close>,
  zero result and zero start time.
\<close>

theorem addTask_then_getTaskStatus:
  assumes "fst (addTask (Some (TaskRequest e)) (snd (run rqs init))) =
             JSON_TaskResponse (TaskResponse i)"
  shows "getTaskStatus (Itoa (sint i)) (snd (addTask (Some (TaskRequest e)) (snd (run rqs init)))) =
           (JSON_Task \<lparr>ID = i, Expression = e, Status = ''pending'', Result = 0, StartTime = 0\<rparr>,
            snd (addTask (Some (TaskRequest e)) (snd (run rqs init))))"
proof -
  let ?g = "snd (run rqs init)"
  have inv: "registry_inv ?g" by (rule registry_inv_reachable)
  have room: "length (tasks ?g) < MaxInt"
  proof (rule ccontr)
    assume "\<not> length (tasks ?g) < MaxInt"
    with inv have "length (tasks ?g) = MaxInt" by (simp add: registry_inv_def)
    then have "fst (addTask (Some (TaskRequest e)) ?g) = Aborted" by (simp add: addTask_full)
    with assms show False by simp
  qed
  note a = addTask_room [OF room, of "TaskRequest e"]
  from assms have i: "i = taskIDCounter ?g + 1" by (simp add: a)
  have c: "sint i = int (length (tasks ?g)) + 1"
    using registry_inv_counter [OF inv room] by (simp add: i)
  have "\<forall>t\<in>set (tasks ?g). Itoa (sint (ID t)) \<noteq> Itoa (sint i)"
  proof
    fix t assume "t \<in> set (tasks ?g)"
    then obtain k where k: "k < length (tasks ?g)" "t = tasks ?g ! k"
      by (auto simp: in_set_conv_nth)
    with inv have "sint (ID t) = int k + 1" by (simp add: registry_inv_def)
    with k(1) c have "sint (ID t) \<noteq> sint i" by simp
    then show "Itoa (sint (ID t)) \<noteq> Itoa (sint i)" using Itoa_inj by blast
  qed
  then have "getTaskStatus_loop (Itoa (sint i))
       (tasks ?g @ [\<lparr>ID = i, Expression = e, Status = ''pending'', Result = 0, StartTime = 0\<rparr>]) =
     JSON_Task \<lparr>ID = i, Expression = e, Status = ''pending'', Result = 0, StartTime = 0\<rparr>"
    by (simp add: getTaskStatus_loop_append)
  then show ?thesis by (simp add: a getTaskStatus_def i)
qed

theorem addTask_then_getTaskStatus_witness:
  "fst (addTask (Some (TaskRequest ''1+1'')) (snd (run [AddTask (Some (TaskRequest ''7'')), GetTaskForExecution 3] init))) =
     JSON_TaskResponse (TaskResponse 2) \<and>
   fst (getTaskStatus ''2'' (snd (addTask (Some (TaskRequest ''1+1''))
      (snd (run [AddTask (Some (TaskRequest ''7'')), GetTaskForExecution 3] init))))) =
     JSON_Task \<lparr>ID = 2, Expression = ''1+1'', Status = ''pending'', Result = 0, StartTime = 0\<rparr>"
proof -
  have h: "fst (addTask (Some (TaskRequest ''1+1''))
      (snd (run [AddTask (Some (TaskRequest ''7'')), GetTaskForExecution 3] init))) =
     JSON_TaskResponse (TaskResponse 2)"
    by (simp add: addTask_def getTaskForExecution_def init_def MaxInt_def)
  have "Itoa (sint (2 :: go_int)) = ''2''"
    by (simp add: Itoa_def formatBits.simps digits_def)
  with addTask_then_getTaskStatus [OF h] h show ?thesis by simp
qed

section \<open>Looking a task up\<close>

text \<open>
  C10. \<open>getTaskStatus\<close> compares the query string with \<open>strconv.Itoa\<close> of each stored id:
  it answers NotFound exactly when no stored id renders to the query string. So a query
  that is not the canonical decimal form of any integer is never found, whatever is stored:
  in particular a canonical form with a leading zero, a plus sign or a space before it, or
  a space after it.
\<close>

theorem getTaskStatus_compares_canonical_decimal:
  "(fst (getTaskStatus q g) = NotFound \<longleftrightarrow> (\<forall>t\<in>set (tasks g). Itoa (sint (ID t)) \<noteq> q)) \<and>
   (q \<notin> range Itoa \<longrightarrow> getTaskStatus q g = (NotFound, g)) \<and>
   getTaskStatus (CHR ''0'' # Itoa n) g = (NotFound, g) \<and>
   getTaskStatus (CHR ''+'' # Itoa n) g = (NotFound, g) \<and>
   getTaskStatus (CHR '' '' # Itoa n) g = (NotFound, g) \<and>
   getTaskStatus (Itoa n @ '' '') g = (NotFound, g)"
proof -
  have nf: "\<And>s. s \<notin> range Itoa \<Longrightarrow> getTaskStatus s g = (NotFound, g)"
  proof -
    fix s :: string assume "s \<notin> range Itoa"
    then have "\<forall>t\<in>set (tasks g). Itoa (sint (ID t)) \<noteq> s" by blast
    then show "getTaskStatus s g = (NotFound, g)"
      by (simp add: getTaskStatus_def getTaskStatus_loop_NotFound_iff)
  qed
  have "CHR ''0'' # Itoa n \<notin> range Itoa" using zero_prefix_not_Itoa by blast
  moreover have "CHR ''+'' # Itoa n \<notin> range Itoa" using plus_prefix_not_Itoa by blast
  moreover have "CHR '' '' # Itoa n \<notin> range Itoa" using space_prefix_not_Itoa by blast
  moreover have "Itoa n @ '' '' \<notin> range Itoa" using space_suffix_not_Itoa by blast
  moreover have "fst (getTaskStatus q g) = NotFound \<longleftrightarrow> (\<forall>t\<in>set (tasks g). Itoa (sint (ID t)) \<noteq> q)"
    by (simp add: getTaskStatus_def getTaskStatus_loop_NotFound_iff)
  ultimately show ?thesis using nf by blast
qed

theorem getTaskStatus_compares_canonical_decimal_witness:
  "getTaskStatus ''01''
     \<lparr>tasks = [\<lparr>ID = 1, Expression = ''1+1'', Status = ''pending'', Result = 0, StartTime = 0\<rparr>],
      operations = [], taskIDCounter = 1\<rparr> =
   (NotFound,
     \<lparr>tasks = [\<lparr>ID = 1, Expression = ''1+1'', Status = ''pending'', Result = 0, StartTime = 0\<rparr>],
      operations = [], taskIDCounter = 1\<rparr>) \<and>
   fst (getTaskStatus ''1''
     \<lparr>tasks = [\<lparr>ID = 1, Expression = ''1+1'', Status = ''pending'', Result = 0, StartTime = 0\<rparr>],
      operations = [], taskIDCounter = 1\<rparr>) \<noteq> NotFound"
proof -
  have "Itoa 1 = ''1''"
    by (simp add: Itoa_def formatBits.simps digits_def)
  with getTaskStatus_compares_canonical_decimal [of "''1''"
     "\<lparr>tasks = [\<lparr>ID = 1, Expression = ''1+1'', Status = ''pending'', Result = 0, StartTime = 0\<rparr>],
      operations = [], taskIDCounter = 1\<rparr>" 1]
  show ?thesis by simp
qed

section \<open>The order of the statuses over time\<close>

text \<open>
  C5, as claimed: under any sequence of create, claim and report requests no stored status
  goes back towards \<open>pending\<close>. \<open>handleResult\<close> stores the reported record unchecked: after
  a create and a claim the task is \<open>in_progress\<close>, and a report for its id with status
  \<open>pending\<close> makes it \<open>pending\<close> again.
\<close>

theorem status_regresses_by_report_counterexample:
  "map Status (tasks (snd (run [AddTask (Some (TaskRequest ''1+1'')), GetTaskForExecution 5] init))) =
     [''in_progress''] \<and>
   map Status (tasks (snd (run [AddTask (Some (TaskRequest ''1+1'')), GetTaskForExecution 5,
       HandleResult (Some \<lparr>ID = 1, Expression = ''1+1'', Status = ''pending'', Result = 0,
                            StartTime = 0\<rparr>)] init))) =
     [''pending'']"
  by (simp add: addTask_def getTaskForExecution_def handleResult_def init_def MaxInt_def)

text \<open>
  C5, amended: take any sequence of requests from the initial state in which every report
  is forward (its status is one of the three and not below the stored status of its id).
  Between any two points of the sequence the list of tasks does not shrink, the status at
  every index does not go down in the order \<open>pending < in_progress < completed\<close>, and
  every stored status is one of the three. And in any state \<open>addTask\<close> either leaves the
  list as it is or appends one task whose status is \<open>pending\<close>.
\<close>

theorem status_advances_under_forward_reports:
  assumes "forwardReports (pre @ post) init"
  shows "length (tasks (snd (run pre init))) \<le> length (tasks (snd (run (pre @ post) init))) \<and>
         (\<forall>k<length (tasks (snd (run pre init))).
            statusRank (Status (tasks (snd (run pre init)) ! k)) \<le>
            statusRank (Status (tasks (snd (run (pre @ post) init)) ! k))) \<and>
         (\<forall>t\<in>set (tasks (snd (run (pre @ post) init))). validStatus (Status t)) \<and>
         (tasks (snd (addTask body g)) = tasks g \<or>
          (\<exists>i e. tasks (snd (addTask body g)) =
             tasks g @ [\<lparr>ID = i, Expression = e, Status = ''pending'', Result = 0, StartTime = 0\<rparr>]))"
proof -
  from assms have p: "forwardReports post (snd (run pre init))"
    by (simp add: forwardReports_append)
  have "advanced (tasks (snd (run pre init))) (tasks (snd (run post (snd (run pre init)))))"
    using p by (rule run_advanced)
  then have a: "advanced (tasks (snd (run pre init))) (tasks (snd (run (pre @ post) init)))"
    by (simp only: snd_run_append)
  have v: "\<forall>t\<in>set (tasks (snd (run (pre @ post) init))). validStatus (Status t)"
    using assms by (rule run_valid) (simp add: init_def)
  from a v addTask_tasks [of body g] show ?thesis by (simp add: advanced_def)
qed

theorem status_advances_under_forward_reports_witness:
  "forwardReports ([AddTask (Some (TaskRequest ''1+1'')), GetTaskForExecution 5] @
       [HandleResult (Some \<lparr>ID = 1, Expression = ''1+1'', Status = ''completed'', Result = 2,
                            StartTime = 5\<rparr>)]) init \<and>
   map Status (tasks (snd (run [AddTask (Some (TaskRequest ''1+1'')), GetTaskForExecution 5] init))) =
     [''in_progress''] \<and>
   map Status (tasks (snd (run ([AddTask (Some (TaskRequest ''1+1'')), GetTaskForExecution 5] @
       [HandleResult (Some \<lparr>ID = 1, Expression = ''1+1'', Status = ''completed'', Result = 2,
                            StartTime = 5\<rparr>)]) init))) =
     [''completed''] \<and>
   statusRank ''in_progress'' \<le> statusRank ''completed''"
proof -
  have h: "forwardReports ([AddTask (Some (TaskRequest ''1+1'')), GetTaskForExecution 5] @
       [HandleResult (Some \<lparr>ID = 1, Expression = ''1+1'', Status = ''completed'', Result = 2,
                            StartTime = 5\<rparr>)]) init"
    by (simp add: addTask_def getTaskForExecution_def handleResult_def init_def MaxInt_def
        validStatus_def statusRank_def)
  have s: "tasks (snd (run [AddTask (Some (TaskRequest ''1+1'')), GetTaskForExecution 5] init)) =
      [\<lparr>ID = 1, Expression = ''1+1'', Status = ''in_progress'', Result = 0, StartTime = 5\<rparr>]"
    by (simp add: addTask_def getTaskForExecution_def init_def MaxInt_def)
  have s': "tasks (snd (run ([AddTask (Some (TaskRequest ''1+1'')), GetTaskForExecution 5] @
       [HandleResult (Some \<lparr>ID = 1, Expression = ''1+1'', Status = ''completed'', Result = 2,
                            StartTime = 5\<rparr>)]) init)) =
      [\<lparr>ID = 1, Expression = ''1+1'', Status = ''completed'', Result = 2, StartTime = 5\<rparr>]"
    by (simp add: addTask_def getTaskForExecution_def handleResult_def init_def MaxInt_def)
  from status_advances_under_forward_reports [OF h, of None init] h show ?thesis
    by (simp only: s s') simp
qed

section \<open>The operation catalog\<close>

text \<open>
  C8. After any sequence of requests from the initial state, \<open>getOperations\<close> answers with
  the four entries \<open>+\<close> 2, \<open>-\<close> 2, \<open>*\<close> 4, \<open>/\<close> 4 in that order and leaves the state as it
  is, and the stored catalog is still the initial one: no handler writes to it, and
  \<open>getOperations\<close> has no other reply.
\<close>

theorem getOperations_catalog_is_stable:
  "getOperations (snd (run rqs init)) =
     (JSON_Operations [\<lparr>Operator = ''+'', Duration = 2\<rparr>, \<lparr>Operator = ''-'', Duration = 2\<rparr>,
                       \<lparr>Operator = ''*'', Duration = 4\<rparr>, \<lparr>Operator = ''/'', Duration = 4\<rparr>],
      snd (run rqs init)) \<and>
   operations (snd (run rqs init)) = operations init"
  by (simp add: getOperations_def run_operations) (simp add: init_def)

end
